theory Spec2Isabelle
  imports Main "HOL-Library.Word"
begin

section \<open>Bytes and strings\<close>

text \<open>
  A Go string is a sequence of bytes; it is modelled as a \<open>char list\<close> (an Isabelle
  \<open>char\<close> is one byte). \<open>s[i:]\<close> is \<open>drop i s\<close>, \<open>s[:i]\<close> is \<open>take i s\<close>, and
  an index \<open>s[i]\<close> is only read where the source has checked \<open>i < len(s)\<close>.
\<close>

definition byte :: "char \<Rightarrow> nat" where
  "byte c = of_char c"

definition is_digit :: "char \<Rightarrow> bool" where
  "is_digit c = (byte (CHR ''0'') \<le> byte c \<and> byte c \<le> byte (CHR ''9''))"

text \<open>\<open>s[i] - '0'\<close> for a byte already known to be a decimal digit.\<close>

definition digit_val :: "char \<Rightarrow> nat" where
  "digit_val c = byte c - byte (CHR ''0'')"

definition backslash :: char where
  "backslash = CHR 0x5C"

definition dquote :: char where
  "dquote = CHR 0x22"

section \<open>fastfloat: integer parsers\<close>

datatype num_error =
    EmptyString
  | CannotParse string
  | UnparsedTail string string
  | MissingIntAndFrac string
  | CannotFindMantissa string
  | CannotParseMantissa string
  | CannotParseExponent string
  | ErrSyntax
  | ErrRange

text \<open>
  A parser either finishes on its own (\<open>Own r\<close>) or reaches one of the calls of the
  standard library decoder on the original input (\<open>Delegated\<close>).
\<close>

datatype 'a path = Own 'a | Delegated

text \<open>
  The digit loop shared by the four integer parsers and by the integer part of the float
  parsers:
  \<^verbatim>\<open>for i < uint(len(s)) { if s[i] >= '0' && s[i] <= '9' { d = d*10 + uint64(s[i]-'0'); i++;
       if i > 18 { fallback }; continue }; break }\<close>
  The first argument is \<open>s[i:]\<close>. \<open>None\<close> is the fallback branch; \<open>Some (i, d)\<close> is
  the state after the loop. The accumulator is a 64-bit word, so \<open>d*10 + ...\<close> wraps as
  in Go.
\<close>

fun digits_loop :: "string \<Rightarrow> nat \<Rightarrow> 64 word \<Rightarrow> (nat \<times> 64 word) option" where
  "digits_loop [] i d = Some (i, d)"
| "digits_loop (c # cs) i d =
     (if is_digit c then
        (let d' = d * 10 + of_nat (digit_val c); i' = i + 1
         in if i' > 18 then None else digits_loop cs i' d')
      else Some (i, d))"

definition ParseUint64_path :: "string \<Rightarrow> (num_error + 64 word) path" where
  "ParseUint64_path s =
     (if length s = 0 then Own (Inl EmptyString)
      else case digits_loop s 0 0 of
             None \<Rightarrow> Delegated
           | Some (i, d) \<Rightarrow>
               if i \<le> 0 then Own (Inl (CannotParse s))
               else if i < length s then Own (Inl (UnparsedTail s (drop i s)))
               else Own (Inr d))"

definition ParseUint64BestEffort_path :: "string \<Rightarrow> (64 word) path" where
  "ParseUint64BestEffort_path s =
     (if length s = 0 then Own 0
      else case digits_loop s 0 0 of
             None \<Rightarrow> Delegated
           | Some (i, d) \<Rightarrow>
               if i \<le> 0 then Own 0
               else if i < length s then Own 0
               else Own d)"

text \<open>
  The signed parsers keep \<open>d\<close> in an \<open>int64\<close>; it is the same 64-bit word read in
  two's complement, and \<open>-d\<close> is the negation of the word.
\<close>

definition ParseInt64_path :: "string \<Rightarrow> (num_error + 64 word) path" where
  "ParseInt64_path s =
     (if length s = 0 then Own (Inl EmptyString)
      else
        let minus = (hd s = CHR ''-''); j = (if minus then 1 else 0)
        in if minus \<and> j \<ge> length s then Own (Inl (CannotParse s))
           else case digits_loop (drop j s) j 0 of
                  None \<Rightarrow> Delegated
                | Some (i, d) \<Rightarrow>
                    if i \<le> j then Own (Inl (CannotParse s))
                    else if i < length s then Own (Inl (UnparsedTail s (drop i s)))
                    else Own (Inr (if minus then - d else d)))"

definition ParseInt64BestEffort_path :: "string \<Rightarrow> (64 word) path" where
  "ParseInt64BestEffort_path s =
     (if length s = 0 then Own 0
      else
        let minus = (hd s = CHR ''-''); j = (if minus then 1 else 0)
        in if minus \<and> j \<ge> length s then Own 0
           else case digits_loop (drop j s) j 0 of
                  None \<Rightarrow> Delegated
                | Some (i, d) \<Rightarrow>
                    if i \<le> j then Own 0
                    else if i < length s then Own 0
                    else Own (if minus then - d else d))"

subsection \<open>The standard library decoders\<close>

text \<open>
  \<open>strconv.ParseUint(s, 10, 64)\<close> and \<open>strconv.ParseInt(s, 10, 64)\<close> belong to the Go
  standard library, not to this repository. They are modelled after the library's
  algorithm for base 10 and bit size 64: every byte must be a decimal digit (a letter is
  a digit value of at least 10, which is not below the base), \<open>cutoff\<close> is
  \<open>maxUint64/10 + 1\<close>, and a product or sum that leaves the 64-bit range is a range
  error. The error value stands for the \<open>*NumError\<close> whose \<open>Err\<close> field is
  \<open>ErrSyntax\<close> or \<open>ErrRange\<close>.
\<close>

definition cutoff64 :: "64 word" where
  "cutoff64 = (- 1) div 10 + 1"

fun ParseUint_loop :: "string \<Rightarrow> 64 word \<Rightarrow> num_error + 64 word" where
  "ParseUint_loop [] n = Inr n"
| "ParseUint_loop (c # cs) n =
     (if \<not> is_digit c then Inl ErrSyntax
      else if n \<ge> cutoff64 then Inl ErrRange
      else let n' = n * 10; n1 = n' + of_nat (digit_val c)
           in if n1 < n' then Inl ErrRange else ParseUint_loop cs n1)"

definition strconv_ParseUint :: "string \<Rightarrow> num_error + 64 word" where
  "strconv_ParseUint s = (if s = [] then Inl ErrSyntax else ParseUint_loop s 0)"

definition strconv_ParseInt :: "string \<Rightarrow> num_error + 64 word" where
  "strconv_ParseInt s =
     (if s = [] then Inl ErrSyntax
      else
        let neg = (hd s = CHR ''-'');
            s1 = (if hd s = CHR ''+'' \<or> hd s = CHR ''-'' then tl s else s)
        in case strconv_ParseUint s1 of
             Inl ErrRange \<Rightarrow> Inl ErrRange
           | Inl e \<Rightarrow> Inl ErrSyntax
           | Inr un \<Rightarrow>
               if \<not> neg \<and> un \<ge> 2 ^ 63 then Inl ErrRange
               else if neg \<and> un > 2 ^ 63 then Inl ErrRange
               else Inr (if neg then - un else un))"

subsection \<open>The parsers, with the fallback resolved\<close>

text \<open>
  At the fallback the strict parsers return the library's value, or \<open>0\<close> and its error;
  the best-effort parsers return the library's value, or \<open>0\<close> on an error.
\<close>

definition ParseUint64 :: "string \<Rightarrow> num_error + 64 word" where
  "ParseUint64 s = (case ParseUint64_path s of Own r \<Rightarrow> r | Delegated \<Rightarrow> strconv_ParseUint s)"

definition ParseUint64BestEffort :: "string \<Rightarrow> 64 word" where
  "ParseUint64BestEffort s =
     (case ParseUint64BestEffort_path s of
        Own d \<Rightarrow> d
      | Delegated \<Rightarrow> (case strconv_ParseUint s of Inl e \<Rightarrow> 0 | Inr dd \<Rightarrow> dd))"

definition ParseInt64 :: "string \<Rightarrow> num_error + 64 word" where
  "ParseInt64 s = (case ParseInt64_path s of Own r \<Rightarrow> r | Delegated \<Rightarrow> strconv_ParseInt s)"

definition ParseInt64BestEffort :: "string \<Rightarrow> 64 word" where
  "ParseInt64BestEffort s =
     (case ParseInt64BestEffort_path s of
        Own d \<Rightarrow> d
      | Delegated \<Rightarrow> (case strconv_ParseInt s of Inl e \<Rightarrow> 0 | Inr dd \<Rightarrow> dd))"

text \<open>The number of leading decimal digits of a string, and their decimal value.\<close>

definition ndigits :: "string \<Rightarrow> nat" where
  "ndigits s = length (takeWhile is_digit s)"

fun decimal :: "string \<Rightarrow> nat \<Rightarrow> nat" where
  "decimal [] a = a"
| "decimal (c # cs) a = decimal cs (a * 10 + digit_val c)"

subsection \<open>Properties of the integer parsers\<close>

lemma decimal_ge: "a \<le> decimal cs a"
proof (induction cs arbitrary: a)
  case Nil show ?case by simp
next
  case (Cons c cs)
  have "a \<le> a * 10 + digit_val c" by simp
  also have "\<dots> \<le> decimal cs (a * 10 + digit_val c)" by (rule Cons.IH)
  finally show ?case by simp
qed

lemma digits_loop_eq:
  "i \<le> 18 \<Longrightarrow> digits_loop cs i (of_nat a) =
     (if i + ndigits cs > 18 then None
      else Some (i + ndigits cs, of_nat (decimal (takeWhile is_digit cs) a)))"
proof (induction cs arbitrary: i a)
  case Nil
  then show ?case by (simp add: ndigits_def)
next
  case (Cons c cs)
  show ?case
  proof (cases "is_digit c")
    case False
    with Cons.prems show ?thesis by (simp add: ndigits_def)
  next
    case True
    have w: "(of_nat a :: 64 word) * 10 + of_nat (digit_val c) = of_nat (a * 10 + digit_val c)"
      by simp
    show ?thesis
    proof (cases "i + 1 > 18")
      case True
      with \<open>is_digit c\<close> show ?thesis by (simp add: ndigits_def Let_def)
    next
      case False
      then have le: "i + 1 \<le> 18" by simp
      from Cons.IH [OF le, of "a * 10 + digit_val c"] True False show ?thesis
        by (simp add: ndigits_def Let_def w del: of_nat_add of_nat_mult)
    qed
  qed
qed

lemma cutoff64_val: "unat cutoff64 = 1844674407370955162"
  by (simp add: cutoff64_def)

lemma digit_val_le: "is_digit c \<Longrightarrow> digit_val c \<le> 9"
  by (auto simp: is_digit_def digit_val_def byte_def)

lemma ParseUint_loop_ok:
  "\<forall>c\<in>set cs. is_digit c \<Longrightarrow> decimal cs (unat n) < 2 ^ 64 \<Longrightarrow>
     ParseUint_loop cs n = Inr (of_nat (decimal cs (unat n)))"
proof (induction cs arbitrary: n)
  case Nil
  then show ?case by simp
next
  case (Cons c cs)
  let ?m = "unat n * 10 + digit_val c"
  from Cons.prems have dig: "is_digit c" and bound: "decimal cs ?m < 2 ^ 64" by simp_all
  from bound decimal_ge [of ?m cs] have m: "?m < 2 ^ 64" by linarith
  then have n10: "unat n * 10 < 2 ^ 64" by linarith
  have un10: "unat (n * 10) = unat n * 10"
    using n10 by (simp add: unat_word_ariths)
  have dv: "unat (of_nat (digit_val c) :: 64 word) = digit_val c"
    using digit_val_le [OF dig] by (simp add: unat_of_nat)
  have un1: "unat (n * 10 + of_nat (digit_val c)) = ?m"
    using m un10 dv by (simp add: unat_word_ariths)
  have lt: "n < cutoff64"
    using n10 by (simp add: word_less_nat_alt cutoff64_val)
  have nlt: "\<not> (n * 10 + of_nat (digit_val c) < n * 10)"
    by (simp add: word_less_nat_alt un1 un10)
  from Cons.prems have rest: "\<forall>c\<in>set cs. is_digit c" by simp
  from bound have b2: "decimal cs (unat (n * 10 + of_nat (digit_val c))) < 2 ^ 64"
    by (simp only: un1)
  from Cons.IH [OF rest b2] dig lt nlt show ?case
    by (simp add: Let_def un1 not_le del: of_nat_add of_nat_mult)
qed

lemma decimal_lt: "\<forall>c\<in>set ds. is_digit c \<Longrightarrow> decimal ds a < (a + 1) * 10 ^ length ds"
proof (induction ds arbitrary: a)
  case Nil
  then show ?case by simp
next
  case (Cons c ds)
  then have c: "digit_val c \<le> 9" and rest: "\<forall>c\<in>set ds. is_digit c"
    by (simp_all add: digit_val_le)
  have "decimal ds (a * 10 + digit_val c) < (a * 10 + digit_val c + 1) * 10 ^ length ds"
    by (rule Cons.IH [OF rest])
  also have "\<dots> \<le> (a * 10 + 10) * 10 ^ length ds"
    using c by (intro mult_le_mono1) simp
  also have "\<dots> = (a + 1) * 10 ^ length (c # ds)" by (simp add: algebra_simps)
  finally show ?case by simp
qed

lemma decimal_small:
  assumes "\<forall>c\<in>set ds. is_digit c" "length ds \<le> 18"
  shows "decimal ds 0 < 10 ^ 18"
proof -
  have "decimal ds 0 < (0 + 1) * 10 ^ length ds" by (rule decimal_lt [OF assms(1)])
  also have "\<dots> = 10 ^ length ds" by simp
  also have "(10::nat) ^ length ds \<le> 10 ^ 18"
    by (rule power_increasing) (use assms(2) in simp_all)
  finally show ?thesis .
qed

lemma ndigits_all: "ndigits s = length s \<longleftrightarrow> (\<forall>c\<in>set s. is_digit c)"
proof -
  have len: "length s = length (takeWhile is_digit s) + length (dropWhile is_digit s)"
    by (metis length_append takeWhile_dropWhile_id)
  have "ndigits s = length s \<longleftrightarrow> dropWhile is_digit s = []"
    using len by (auto simp: ndigits_def)
  also have "\<dots> \<longleftrightarrow> takeWhile is_digit s = s"
    by (metis append_Nil2 takeWhile_dropWhile_id self_append_conv)
  also have "\<dots> \<longleftrightarrow> (\<forall>c\<in>set s. is_digit c)"
    by (rule takeWhile_eq_all_conv)
  finally show ?thesis .
qed

lemma ParseUint_loop_digits: "ParseUint_loop cs n = Inr v \<Longrightarrow> \<forall>c\<in>set cs. is_digit c"
  by (induction cs arbitrary: n) (auto simp: Let_def split: if_splits)

lemma strconv_ParseUint_small:
  assumes "s \<noteq> []" "\<forall>c\<in>set s. is_digit c" "length s \<le> 18"
  shows "strconv_ParseUint s = Inr (of_nat (decimal s 0))"
proof -
  have "decimal s 0 < 10 ^ 18" by (rule decimal_small [OF assms(2,3)])
  then have "decimal s (unat (0 :: 64 word)) < 2 ^ 64" by simp
  from ParseUint_loop_ok [OF assms(2) this] assms(1) show ?thesis
    by (simp add: strconv_ParseUint_def)
qed

lemma ParseUint64_path_Delegated: "ParseUint64_path s = Delegated \<longleftrightarrow> 18 < ndigits s"
  using digits_loop_eq [of 0 s 0]
  by (cases s) (auto simp: ParseUint64_path_def ndigits_def split: option.splits)

lemma ParseUint64BestEffort_path_Delegated:
  "ParseUint64BestEffort_path s = Delegated \<longleftrightarrow> 18 < ndigits s"
  using digits_loop_eq [of 0 s 0]
  by (cases s) (auto simp: ParseUint64BestEffort_path_def ndigits_def split: option.splits)

lemma ParseUint64_path_Own:
  assumes "s \<noteq> []" "ndigits s \<le> 18"
  shows "ParseUint64_path s = Own (if ndigits s = 0 then Inl (CannotParse s)
           else if ndigits s < length s then Inl (UnparsedTail s (drop (ndigits s) s))
           else Inr (of_nat (decimal (takeWhile is_digit s) 0)))"
  using digits_loop_eq [of 0 s 0] assms
  by (auto simp: ParseUint64_path_def split: option.splits)

lemma ParseUint64BestEffort_path_Own:
  assumes "s \<noteq> []" "ndigits s \<le> 18"
  shows "ParseUint64BestEffort_path s = Own (if ndigits s = 0 then 0
           else if ndigits s < length s then 0
           else of_nat (decimal (takeWhile is_digit s) 0))"
  using digits_loop_eq [of 0 s 0] assms
  by (auto simp: ParseUint64BestEffort_path_def split: option.splits)

lemma ndigits_le: "ndigits s \<le> length s"
  by (simp add: ndigits_def length_takeWhile_le)

lemma takeWhile_all: "ndigits s = length s \<Longrightarrow> takeWhile is_digit s = s"
  by (simp add: ndigits_all)

lemma ParseUint64_iff: "ParseUint64 s = Inr v \<longleftrightarrow> strconv_ParseUint s = Inr v"
proof (cases "18 < ndigits s")
  case True
  then show ?thesis by (simp add: ParseUint64_def ParseUint64_path_Delegated [THEN iffD2])
next
  case False
  then have le: "ndigits s \<le> 18" by simp
  show ?thesis
  proof (cases "s = []")
    case True
    then show ?thesis by (simp add: ParseUint64_def ParseUint64_path_def strconv_ParseUint_def)
  next
    case ne: False
    show ?thesis
    proof (cases "ndigits s = length s")
      case True
      then have all: "\<forall>c\<in>set s. is_digit c" by (simp add: ndigits_all)
      from True le have "length s \<le> 18" by simp
      from strconv_ParseUint_small [OF ne all this] True ne show ?thesis
        by (simp add: ParseUint64_def ParseUint64_path_Own [OF ne le] takeWhile_all)
    next
      case False
      then have lt: "ndigits s < length s" using ndigits_le [of s] by simp
      from False have "\<not> (\<forall>c\<in>set s. is_digit c)" by (simp add: ndigits_all)
      then have "strconv_ParseUint s \<noteq> Inr v"
        using ParseUint_loop_digits [of s 0 v] by (auto simp: strconv_ParseUint_def)
      with lt show ?thesis
        by (simp add: ParseUint64_def ParseUint64_path_Own [OF ne le])
    qed
  qed
qed

lemma ParseUint64BestEffort_eq:
  "ParseUint64BestEffort s = (case strconv_ParseUint s of Inl e \<Rightarrow> 0 | Inr v \<Rightarrow> v)"
proof (cases "18 < ndigits s")
  case True
  then show ?thesis
    by (simp add: ParseUint64BestEffort_def ParseUint64BestEffort_path_Delegated [THEN iffD2])
next
  case False
  then have le: "ndigits s \<le> 18" by simp
  show ?thesis
  proof (cases "s = []")
    case True
    then show ?thesis
      by (simp add: ParseUint64BestEffort_def ParseUint64BestEffort_path_def strconv_ParseUint_def)
  next
    case ne: False
    show ?thesis
    proof (cases "ndigits s = length s")
      case True
      then have all: "\<forall>c\<in>set s. is_digit c" by (simp add: ndigits_all)
      from True le have "length s \<le> 18" by simp
      from strconv_ParseUint_small [OF ne all this] True ne show ?thesis
        by (simp add: ParseUint64BestEffort_def ParseUint64BestEffort_path_Own [OF ne le] takeWhile_all)
    next
      case False
      then have lt: "ndigits s < length s" using ndigits_le [of s] by simp
      from False have nd: "\<not> (\<forall>c\<in>set s. is_digit c)" by (simp add: ndigits_all)
      have "\<exists>e. strconv_ParseUint s = Inl e"
      proof (cases "strconv_ParseUint s")
        case (Inl e) then show ?thesis by simp
      next
        case (Inr v)
        with nd ParseUint_loop_digits [of s 0 v] show ?thesis
          by (auto simp: strconv_ParseUint_def split: if_splits)
      qed
      with lt show ?thesis
        by (auto simp: ParseUint64BestEffort_def ParseUint64BestEffort_path_Own [OF ne le])
    qed
  qed
qed

lemma ParseUint64BestEffort_strict:
  "ParseUint64BestEffort s = (case ParseUint64 s of Inl e \<Rightarrow> 0 | Inr v \<Rightarrow> v)"
  by (auto simp: ParseUint64BestEffort_def ParseUint64_def ParseUint64BestEffort_path_def
      ParseUint64_path_def split: option.splits)

lemma ParseInt64BestEffort_strict:
  "ParseInt64BestEffort s = (case ParseInt64 s of Inl e \<Rightarrow> 0 | Inr v \<Rightarrow> v)"
  by (auto simp: ParseInt64BestEffort_def ParseInt64_def ParseInt64BestEffort_path_def
      ParseInt64_path_def Let_def split: option.splits)

lemma ParseInt64BestEffort_path_Delegated:
  "ParseInt64BestEffort_path s = Delegated \<longleftrightarrow> ParseInt64_path s = Delegated"
  by (auto simp: ParseInt64BestEffort_path_def ParseInt64_path_def Let_def split: option.splits)

lemma ParseInt64_path_minus:
  assumes "ndigits ds \<le> 17"
  shows "ParseInt64_path (CHR ''-'' # ds) = Own (if ndigits ds = 0 then Inl (CannotParse (CHR ''-'' # ds))
           else if ndigits ds < length ds then Inl (UnparsedTail (CHR ''-'' # ds) (drop (ndigits ds) ds))
           else Inr (- of_nat (decimal (takeWhile is_digit ds) 0)))"
  using digits_loop_eq [of 1 ds 0] assms
  by (cases ds) (auto simp: ParseInt64_path_def ndigits_def split: option.splits)

lemma ParseInt64_path_plain:
  assumes "s \<noteq> []" "hd s \<noteq> CHR ''-''" "ndigits s \<le> 18"
  shows "ParseInt64_path s = Own (if ndigits s = 0 then Inl (CannotParse s)
           else if ndigits s < length s then Inl (UnparsedTail s (drop (ndigits s) s))
           else Inr (of_nat (decimal (takeWhile is_digit s) 0)))"
  using digits_loop_eq [of 0 s 0] assms
  by (auto simp: ParseInt64_path_def split: option.splits)

lemma ParseInt64_path_Delegated:
  "ParseInt64_path s = Delegated \<longleftrightarrow>
     (case s of [] \<Rightarrow> False
      | c # cs \<Rightarrow> if c = CHR ''-'' then 17 < ndigits cs else 18 < ndigits s)"
proof (cases s)
  case Nil
  then show ?thesis by (simp add: ParseInt64_path_def)
next
  case (Cons c cs)
  show ?thesis
  proof (cases "c = CHR ''-''")
    case True
    with Cons digits_loop_eq [of 1 cs 0] show ?thesis
      by (cases cs) (auto simp: ParseInt64_path_def ndigits_def split: option.splits)
  next
    case False
    with Cons digits_loop_eq [of 0 s 0] show ?thesis
      by (auto simp: ParseInt64_path_def split: option.splits)
  qed
qed

lemma small_not_ge: "m < 10 ^ 18 \<Longrightarrow> \<not> ((2::64 word) ^ 63 \<le> of_nat m)"
  by (simp add: word_le_nat_alt unat_of_nat)

lemma small_not_gt: "m < 10 ^ 18 \<Longrightarrow> \<not> ((2::64 word) ^ 63 < of_nat m)"
  by (simp add: word_less_nat_alt unat_of_nat)

lemma minus_not_digit: "\<not> is_digit (CHR ''-'')" and plus_not_digit: "\<not> is_digit (CHR ''+'')"
  by (simp_all add: is_digit_def byte_def)

lemma strconv_ParseInt_minus_small:
  assumes "ds \<noteq> []" "\<forall>c\<in>set ds. is_digit c" "length ds \<le> 18"
  shows "strconv_ParseInt (CHR ''-'' # ds) = Inr (- of_nat (decimal ds 0))"
  using strconv_ParseUint_small [OF assms] small_not_gt [OF decimal_small [OF assms(2,3)]]
  by (simp add: strconv_ParseInt_def)

lemma strconv_ParseInt_plain_small:
  assumes "s \<noteq> []" "\<forall>c\<in>set s. is_digit c" "length s \<le> 18"
  shows "strconv_ParseInt s = Inr (of_nat (decimal s 0))"
proof -
  from assms(1,2) have "is_digit (hd s)" by (cases s) simp_all
  then have "hd s \<noteq> CHR ''-''" "hd s \<noteq> CHR ''+''"
    using minus_not_digit plus_not_digit by auto
  with strconv_ParseUint_small [OF assms] small_not_ge [OF decimal_small [OF assms(2,3)]] assms(1)
  show ?thesis by (simp add: strconv_ParseInt_def)
qed

lemma strconv_ParseUint_Inr_digits:
  "strconv_ParseUint s = Inr v \<Longrightarrow> s \<noteq> [] \<and> (\<forall>c\<in>set s. is_digit c)"
  using ParseUint_loop_digits [of s 0 v] by (auto simp: strconv_ParseUint_def split: if_splits)

lemma strconv_ParseInt_Inr_digits:
  assumes "strconv_ParseInt s = Inr v" "s \<noteq> []" "hd s \<noteq> CHR ''+''"
  shows "if hd s = CHR ''-'' then tl s \<noteq> [] \<and> (\<forall>c\<in>set (tl s). is_digit c)
         else (\<forall>c\<in>set s. is_digit c)"
  using assms
  by (auto simp: strconv_ParseInt_def Let_def split: if_splits sum.splits num_error.splits
      dest!: strconv_ParseUint_Inr_digits)

lemma ParseInt64_sound: "ParseInt64 s = Inr v \<Longrightarrow> strconv_ParseInt s = Inr v"
proof (cases "ParseInt64_path s = Delegated")
  case True
  assume "ParseInt64 s = Inr v"
  with True show ?thesis by (simp add: ParseInt64_def)
next
  case nd: False
  assume r: "ParseInt64 s = Inr v"
  then have ne: "s \<noteq> []" by (auto simp: ParseInt64_def ParseInt64_path_def)
  then obtain c cs where s: "s = c # cs" by (cases s) auto
  show ?thesis
  proof (cases "c = CHR ''-''")
    case True
    with nd s have le: "ndigits cs \<le> 17" by (simp add: ParseInt64_path_Delegated)
    from r s True have own: "ndigits cs \<noteq> 0" "\<not> ndigits cs < length cs"
        "v = - of_nat (decimal (takeWhile is_digit cs) 0)"
      by (auto simp: ParseInt64_def ParseInt64_path_minus [OF le] split: if_splits)
    then have full: "ndigits cs = length cs" using ndigits_le [of cs] by simp
    then have all: "\<forall>c\<in>set cs. is_digit c" by (simp add: ndigits_all)
    from own(1) full have cne: "cs \<noteq> []" by auto
    from full le have "length cs \<le> 18" by simp
    from strconv_ParseInt_minus_small [OF cne all this] own(3) s True show ?thesis
      by (simp add: takeWhile_all [OF full])
  next
    case False
    with nd s have le: "ndigits s \<le> 18" by (simp add: ParseInt64_path_Delegated)
    from False s have hd: "hd s \<noteq> CHR ''-''" by simp
    from r have own: "ndigits s \<noteq> 0" "\<not> ndigits s < length s"
        "v = of_nat (decimal (takeWhile is_digit s) 0)"
      by (auto simp: ParseInt64_def ParseInt64_path_plain [OF ne hd le] split: if_splits)
    then have full: "ndigits s = length s" using ndigits_le [of s] by simp
    then have all: "\<forall>c\<in>set s. is_digit c" by (simp add: ndigits_all)
    from full le have "length s \<le> 18" by simp
    from strconv_ParseInt_plain_small [OF ne all this] own(3) show ?thesis
      by (simp add: takeWhile_all [OF full])
  qed
qed

lemma ParseInt64_complete:
  assumes r: "strconv_ParseInt s = Inr v" and plus: "hd s \<noteq> CHR ''+''"
  shows "ParseInt64 s = Inr v"
proof (cases "ParseInt64_path s = Delegated")
  case True
  with r show ?thesis by (simp add: ParseInt64_def)
next
  case nd: False
  from r have ne: "s \<noteq> []" by (auto simp: strconv_ParseInt_def)
  then obtain c cs where s: "s = c # cs" by (cases s) auto
  note dg = strconv_ParseInt_Inr_digits [OF r ne plus]
  show ?thesis
  proof (cases "c = CHR ''-''")
    case True
    with nd s have le: "ndigits cs \<le> 17" by (simp add: ParseInt64_path_Delegated)
    from dg s True have cne: "cs \<noteq> []" and all: "\<forall>c\<in>set cs. is_digit c" by simp_all
    then have full: "ndigits cs = length cs" by (simp add: ndigits_all)
    with le have len: "length cs \<le> 18" by simp
    from cne full have nz: "ndigits cs \<noteq> 0" by simp
    from strconv_ParseInt_minus_small [OF cne all len] r s True
    have "v = - of_nat (decimal cs 0)" by simp
    with s True nz full show ?thesis
      by (simp add: ParseInt64_def ParseInt64_path_minus [OF le] takeWhile_all [OF full])
  next
    case False
    with nd s have le: "ndigits s \<le> 18" by (simp add: ParseInt64_path_Delegated)
    from False s have hd: "hd s \<noteq> CHR ''-''" by simp
    with dg have all: "\<forall>c\<in>set s. is_digit c" by simp
    then have full: "ndigits s = length s" by (simp add: ndigits_all)
    with le have len: "length s \<le> 18" by simp
    from ne full have nz: "ndigits s \<noteq> 0" by simp
    from strconv_ParseInt_plain_small [OF ne all len] r
    have "v = of_nat (decimal s 0)" by simp
    with nz full show ?thesis
      by (simp add: ParseInt64_def ParseInt64_path_plain [OF ne hd le] takeWhile_all [OF full])
  qed
qed

lemma strconv_ParseInt_plus_small:
  assumes "ds \<noteq> []" "\<forall>c\<in>set ds. is_digit c" "length ds \<le> 18"
  shows "strconv_ParseInt (CHR ''+'' # ds) = Inr (of_nat (decimal ds 0))"
  using strconv_ParseUint_small [OF assms] small_not_ge [OF decimal_small [OF assms(2,3)]]
  by (simp add: strconv_ParseInt_def)

lemma ParseInt64BestEffort_plus: "ParseInt64BestEffort (CHR ''+'' # cs) = 0"
  using plus_not_digit
  by (simp add: ParseInt64BestEffort_def ParseInt64BestEffort_path_def)

lemma digits_18:
  "\<forall>c\<in>set ''123456789012345678''. is_digit c"
  "decimal ''123456789012345678'' 0 = 123456789012345678"
  "ndigits ''123456789012345678'' = 18"
  by (simp_all add: ndigits_def is_digit_def digit_val_def byte_def)

lemma digits_19:
  "\<forall>c\<in>set ''1234567890123456789''. is_digit c"
  "decimal ''1234567890123456789'' 0 = 1234567890123456789"
  "ndigits ''1234567890123456789'' = 19"
  by (simp_all add: ndigits_def is_digit_def digit_val_def byte_def)

lemma lib_minus_18:
  "strconv_ParseInt ''-123456789012345678'' = Inr (- 123456789012345678)"
proof -
  have "strconv_ParseInt (CHR ''-'' # ''123456789012345678'')
          = Inr (- of_nat (decimal ''123456789012345678'' 0))"
    by (rule strconv_ParseInt_minus_small) (simp_all add: digits_18(1))
  then show ?thesis by (simp only: digits_18(2)) simp
qed

lemma lib_plus_18:
  "strconv_ParseInt ''+123456789012345678'' = Inr 123456789012345678"
proof -
  have "strconv_ParseInt (CHR ''+'' # ''123456789012345678'')
          = Inr (of_nat (decimal ''123456789012345678'' 0))"
    by (rule strconv_ParseInt_plus_small) (simp_all add: digits_18(1))
  then show ?thesis by (simp only: digits_18(2)) simp
qed

lemma lib_19: "strconv_ParseUint ''1234567890123456789'' = Inr 1234567890123456789"
proof -
  have "decimal ''1234567890123456789'' (unat (0 :: 64 word)) < 2 ^ 64"
    by (simp only: unat_0 digits_19(2)) simp
  from ParseUint_loop_ok [OF digits_19(1) this]
  have "ParseUint_loop ''1234567890123456789'' 0 = Inr (of_nat (decimal ''1234567890123456789'' 0))"
    by (simp only: unat_0)
  then have "ParseUint_loop ''1234567890123456789'' 0 = Inr 1234567890123456789"
    by (simp only: digits_19(2)) simp
  then show ?thesis by (simp add: strconv_ParseUint_def)
qed

text \<open>
  C2 (as stated): the integer parsers delegate to the standard library exactly when more
  than 18 digits are consumed, a leading \<open>-\<close> being stripped first, and at the 18-digit
  boundary the value returned is the library's. The source compares the byte index \<open>i\<close>
  with 18, and after a leading \<open>-\<close> the index is one ahead of the number of digits: a
  negative number of exactly 18 digits is already delegated. A leading \<open>+\<close> is not
  stripped: on an 18-digit number with a leading \<open>+\<close> the best-effort signed parser
  consumes no digit and returns 0, where the library returns the number.
\<close>

theorem ParseInt64_delegates_at_18_digits:
  "ParseInt64_path ''-123456789012345678'' = Delegated \<and>
   ParseInt64BestEffort_path ''-123456789012345678'' = Delegated \<and>
   ndigits ''123456789012345678'' = 18 \<and>
   ParseInt64BestEffort ''+123456789012345678'' = 0 \<and>
   strconv_ParseInt ''+123456789012345678'' = Inr 123456789012345678"
proof -
  have "ParseInt64_path (CHR ''-'' # ''123456789012345678'') = Delegated"
    by (simp only: ParseInt64_path_Delegated list.case if_True digits_18(3)) simp
  moreover from this have "ParseInt64BestEffort_path (CHR ''-'' # ''123456789012345678'') = Delegated"
    by (simp only: ParseInt64BestEffort_path_Delegated)
  moreover have "ParseInt64BestEffort (CHR ''+'' # ''123456789012345678'') = 0"
    by (rule ParseInt64BestEffort_plus)
  ultimately show ?thesis using digits_18(3) lib_plus_18 by simp
qed

text \<open>
  C2 (amended): the unsigned parsers delegate exactly when more than 18 digits are
  consumed; the signed parsers delegate exactly when more than 18 digits are consumed
  without a sign, and exactly when more than 17 digits are consumed after a leading
  \<open>-\<close>. Below these bounds a string of digits is accumulated in the parser's own 64-bit
  accumulator. The value returned is the standard library's on every input for the
  unsigned parsers, and on every input that does not begin with \<open>+\<close> for the signed
  parsers: the strict parser succeeds with a value exactly when the library does, and the
  best-effort parser returns the library's value, or 0 where the library fails.
\<close>

theorem integer_parsers_delegation:
  "(ParseUint64_path s = Delegated \<longleftrightarrow> 18 < ndigits s) \<and>
   (ParseUint64BestEffort_path s = Delegated \<longleftrightarrow> 18 < ndigits s) \<and>
   (ParseInt64_path s = Delegated \<longleftrightarrow>
      (case s of [] \<Rightarrow> False
       | c # cs \<Rightarrow> if c = CHR ''-'' then 17 < ndigits cs else 18 < ndigits s)) \<and>
   (ParseInt64BestEffort_path s = Delegated \<longleftrightarrow> ParseInt64_path s = Delegated) \<and>
   (s \<noteq> [] \<and> ndigits s = length s \<and> length s \<le> 18 \<longrightarrow>
      ParseUint64_path s = Own (Inr (of_nat (decimal s 0))) \<and>
      ParseInt64_path s = Own (Inr (of_nat (decimal s 0))) \<and>
      ParseInt64_path (CHR ''-'' # s) =
        (if length s \<le> 17 then Own (Inr (- of_nat (decimal s 0))) else Delegated)) \<and>
   (ParseUint64 s = Inr v \<longleftrightarrow> strconv_ParseUint s = Inr v) \<and>
   ParseUint64BestEffort s = (case strconv_ParseUint s of Inl e \<Rightarrow> 0 | Inr w \<Rightarrow> w) \<and>
   (s = [] \<or> hd s \<noteq> CHR ''+'' \<longrightarrow>
      (ParseInt64 s = Inr v \<longleftrightarrow> strconv_ParseInt s = Inr v) \<and>
      ParseInt64BestEffort s = (case strconv_ParseInt s of Inl e \<Rightarrow> 0 | Inr w \<Rightarrow> w))"
proof -
  have own: "ParseUint64_path s = Own (Inr (of_nat (decimal s 0))) \<and>
      ParseInt64_path s = Own (Inr (of_nat (decimal s 0))) \<and>
      ParseInt64_path (CHR ''-'' # s) =
        (if length s \<le> 17 then Own (Inr (- of_nat (decimal s 0))) else Delegated)"
    if ne: "s \<noteq> []" and full: "ndigits s = length s" and len: "length s \<le> 18"
  proof -
    from full len have le: "ndigits s \<le> 18" by simp
    from full have all: "\<forall>c\<in>set s. is_digit c" by (simp add: ndigits_all)
    with ne have "is_digit (hd s)" by (cases s) simp_all
    then have hd: "hd s \<noteq> CHR ''-''" using minus_not_digit by auto
    from ne full have nz: "ndigits s \<noteq> 0" by simp
    have 1: "ParseUint64_path s = Own (Inr (of_nat (decimal s 0)))"
      using nz full by (simp add: ParseUint64_path_Own [OF ne le] takeWhile_all)
    have 2: "ParseInt64_path s = Own (Inr (of_nat (decimal s 0)))"
      using nz full by (simp add: ParseInt64_path_plain [OF ne hd le] takeWhile_all)
    have 3: "ParseInt64_path (CHR ''-'' # s) =
        (if length s \<le> 17 then Own (Inr (- of_nat (decimal s 0))) else Delegated)"
    proof (cases "length s \<le> 17")
      case True
      with full have "ndigits s \<le> 17" by simp
      from ParseInt64_path_minus [OF this] nz full True show ?thesis
        by (simp add: takeWhile_all)
    next
      case False
      with full show ?thesis by (simp add: ParseInt64_path_Delegated)
    qed
    from 1 2 3 show ?thesis by simp
  qed
  have signed: "(ParseInt64 s = Inr v \<longleftrightarrow> strconv_ParseInt s = Inr v) \<and>
      ParseInt64BestEffort s = (case strconv_ParseInt s of Inl e \<Rightarrow> 0 | Inr w \<Rightarrow> w)"
    if plus: "s = [] \<or> hd s \<noteq> CHR ''+''"
  proof -
    have iff: "ParseInt64 s = Inr w \<longleftrightarrow> strconv_ParseInt s = Inr w" for w
    proof (cases "s = []")
      case True
      then show ?thesis
        by (simp add: ParseInt64_def ParseInt64_path_def strconv_ParseInt_def)
    next
      case False
      with plus have "hd s \<noteq> CHR ''+''" by simp
      from ParseInt64_sound [of s w] ParseInt64_complete [OF _ this, of w] show ?thesis by blast
    qed
    have be: "(case ParseInt64 s of Inl e \<Rightarrow> 0 | Inr w \<Rightarrow> w) =
          (case strconv_ParseInt s of Inl e \<Rightarrow> 0 | Inr w \<Rightarrow> w)"
    proof (cases "ParseInt64 s")
      case (Inr w)
      moreover from Inr have "strconv_ParseInt s = Inr w" by (simp only: iff)
      ultimately show ?thesis by simp
    next
      case (Inl e)
      show ?thesis
      proof (cases "strconv_ParseInt s")
        case (Inr w)
        then have "ParseInt64 s = Inr w" by (simp only: iff)
        with Inl show ?thesis by simp
      next
        case Inl': (Inl e')
        with Inl show ?thesis by simp
      qed
    qed
    have "ParseInt64BestEffort s = (case strconv_ParseInt s of Inl e \<Rightarrow> 0 | Inr w \<Rightarrow> w)"
      by (simp only: ParseInt64BestEffort_strict be)
    with iff [of v] show ?thesis by (intro conjI)
  qed
  have uiff: "ParseUint64 s = Inr v \<longleftrightarrow> strconv_ParseUint s = Inr v"
    by (rule ParseUint64_iff)
  have ube: "ParseUint64BestEffort s = (case strconv_ParseUint s of Inl e \<Rightarrow> 0 | Inr w \<Rightarrow> w)"
    by (rule ParseUint64BestEffort_eq)
  from own have own': "s \<noteq> [] \<and> ndigits s = length s \<and> length s \<le> 18 \<longrightarrow>
      ParseUint64_path s = Own (Inr (of_nat (decimal s 0))) \<and>
      ParseInt64_path s = Own (Inr (of_nat (decimal s 0))) \<and>
      ParseInt64_path (CHR ''-'' # s) =
        (if length s \<le> 17 then Own (Inr (- of_nat (decimal s 0))) else Delegated)"
    by blast
  from signed have signed': "s = [] \<or> hd s \<noteq> CHR ''+'' \<longrightarrow>
      (ParseInt64 s = Inr v \<longleftrightarrow> strconv_ParseInt s = Inr v) \<and>
      ParseInt64BestEffort s = (case strconv_ParseInt s of Inl e \<Rightarrow> 0 | Inr w \<Rightarrow> w)"
    by blast
  from ParseUint64_path_Delegated [of s] ParseUint64BestEffort_path_Delegated [of s]
    ParseInt64_path_Delegated [of s] ParseInt64BestEffort_path_Delegated [of s]
    own' uiff ube signed'
  show ?thesis by (intro conjI)
qed

theorem integer_parsers_delegation_witness:
  "ParseUint64_path ''123456789012345678'' = Own (Inr 123456789012345678) \<and>
   ParseInt64_path ''123456789012345678'' = Own (Inr 123456789012345678) \<and>
   ParseInt64_path ''-123456789012345678'' = Delegated \<and>
   ParseUint64_path ''1234567890123456789'' = Delegated \<and>
   ParseInt64_path ''1234567890123456789'' = Delegated \<and>
   ParseUint64 ''1234567890123456789'' = Inr 1234567890123456789 \<and>
   ParseInt64 ''-123456789012345678'' = Inr (- 123456789012345678) \<and>
   ParseInt64BestEffort ''-123456789012345678'' = - 123456789012345678 \<and>
   strconv_ParseInt ''-123456789012345678'' = Inr (- 123456789012345678)"
proof -
  note t18 = integer_parsers_delegation [of "''123456789012345678''"]
  note t19 = integer_parsers_delegation [of "''1234567890123456789''" 1234567890123456789]
  note tm = integer_parsers_delegation [of "''-123456789012345678''" "- 123456789012345678"]
  have pre: "''123456789012345678'' \<noteq> [] \<and>
      ndigits ''123456789012345678'' = length ''123456789012345678'' \<and>
      length ''123456789012345678'' \<le> 18"
    by (simp only: digits_18(3)) simp
  from t18 pre have own:
    "ParseUint64_path ''123456789012345678'' = Own (Inr (of_nat (decimal ''123456789012345678'' 0)))"
    "ParseInt64_path ''123456789012345678'' = Own (Inr (of_nat (decimal ''123456789012345678'' 0)))"
    "ParseInt64_path (CHR ''-'' # ''123456789012345678'') =
      (if length ''123456789012345678'' \<le> 17
       then Own (Inr (- of_nat (decimal ''123456789012345678'' 0))) else Delegated)"
    by blast+
  from own(1) have a: "ParseUint64_path ''123456789012345678'' = Own (Inr 123456789012345678)"
    by (simp only: digits_18(2)) simp
  from own(2) have b: "ParseInt64_path ''123456789012345678'' = Own (Inr 123456789012345678)"
    by (simp only: digits_18(2)) simp
  from own(3) have c: "ParseInt64_path ''-123456789012345678'' = Delegated"
    by simp
  from t19 have "ParseUint64_path ''1234567890123456789'' = Delegated
      \<longleftrightarrow> 18 < ndigits ''1234567890123456789''"
    by blast
  then have d: "ParseUint64_path ''1234567890123456789'' = Delegated"
    by (simp add: digits_19(3))
  from t19 have "ParseInt64_path ''1234567890123456789'' = Delegated \<longleftrightarrow>
      (case ''1234567890123456789'' of [] \<Rightarrow> False
       | c # cs \<Rightarrow> if c = CHR ''-'' then 17 < ndigits cs else 18 < ndigits ''1234567890123456789'')"
    by blast
  then have e: "ParseInt64_path ''1234567890123456789'' = Delegated"
    by (simp add: digits_19(3))
  from t19 have "ParseUint64 ''1234567890123456789'' = Inr 1234567890123456789
      \<longleftrightarrow> strconv_ParseUint ''1234567890123456789'' = Inr 1234567890123456789"
    by blast
  with lib_19 have f: "ParseUint64 ''1234567890123456789'' = Inr 1234567890123456789"
    by blast
  have hd: "hd ''-123456789012345678'' \<noteq> CHR ''+''" by simp
  from tm hd have g0:
    "ParseInt64 ''-123456789012345678'' = Inr (- 123456789012345678)
       \<longleftrightarrow> strconv_ParseInt ''-123456789012345678'' = Inr (- 123456789012345678)"
    "ParseInt64BestEffort ''-123456789012345678''
       = (case strconv_ParseInt ''-123456789012345678'' of Inl e \<Rightarrow> 0 | Inr w \<Rightarrow> w)"
    by blast+
  from g0(1) lib_minus_18 have g: "ParseInt64 ''-123456789012345678'' = Inr (- 123456789012345678)"
    by blast
  from g0(2) have h: "ParseInt64BestEffort ''-123456789012345678'' = - 123456789012345678"
    by (simp only: lib_minus_18 sum.case)
  from a b c d e f g h lib_minus_18 show ?thesis by (intro conjI)
qed


section \<open>fastfloat: float parsers\<close>

text \<open>
  The arithmetic of IEEE-754 doubles is not interpreted. A \<open>float64\<close> result is kept as
  the expression of the source that computes it: \<open>F_uint64 d\<close> is \<open>float64(d)\<close>,
  \<open>F_div_pow10 d n\<close> is \<open>float64(d) / float64pow10[n]\<close>, \<open>F_mul_Pow10 f e\<close> is
  \<open>f * math.Pow10(e)\<close>, \<open>F_neg f\<close> is \<open>-f\<close>, and \<open>F_inf\<close>, \<open>F_nan\<close>, \<open>F_zero\<close> are
  \<open>inf\<close>, \<open>nan\<close> and the constant \<open>0\<close>.
\<close>

datatype float64 =
    F_uint64 "64 word"
  | F_div_pow10 "64 word" nat
  | F_mul_Pow10 float64 int
  | F_neg float64
  | F_inf
  | F_nan
  | F_zero

text \<open>
  The three places where the float parsers call \<open>strconv.ParseFloat(s, 64)\<close> on the
  original input and return what it returns (an error of the library that does not come
  with an infinite value is returned as an error, or as 0 by the best-effort parser).
\<close>

datatype fallback_site = FromIntegerPart | FromMantissa | FromExponent

datatype 'a fpath = Returns 'a | Fallback fallback_site

text \<open>The length of the table \<open>float64pow10\<close> (1e0 .. 1e16).\<close>

definition len_float64pow10 :: nat where
  "len_float64pow10 = 17"

text \<open>
  \<open>strings.EqualFold\<close> against the ASCII words \<open>inf\<close>, \<open>infinity\<close> and \<open>nan\<close>: none of
  their letters has a non-ASCII case variant, so the comparison is the ASCII
  case-insensitive one.
\<close>

definition to_lower :: "char \<Rightarrow> char" where
  "to_lower c = (if byte (CHR ''A'') \<le> byte c \<and> byte c \<le> byte (CHR ''Z'')
                 then char_of (byte c + 32) else c)"

definition EqualFold :: "string \<Rightarrow> string \<Rightarrow> bool" where
  "EqualFold s t = (map to_lower s = map to_lower t)"

text \<open>
  The special tokens: \<open>ss\<close> is \<open>s[i:]\<close>; an optional leading \<open>+\<close> is stripped, then the
  rest is compared with \<open>inf\<close>, \<open>infinity\<close> and \<open>nan\<close>. The second component is the
  string reported in the error of the strict parser.
\<close>

definition special_token :: "string \<Rightarrow> bool \<Rightarrow> float64 option \<times> string" where
  "special_token ss0 neg =
     (let ss = (if ss0 \<noteq> [] \<and> hd ss0 = CHR ''+'' then tl ss0 else ss0)
      in if EqualFold ss ''inf'' \<or> EqualFold ss ''infinity''
         then (Some (if neg then F_neg F_inf else F_inf), ss)
         else if EqualFold ss ''nan'' then (Some F_nan, ss)
         else (None, ss))"

text \<open>
  The loop over the fractional digits; \<open>j\<close> is the index of the first byte after the
  sign, and the fallback is taken once \<open>i - j\<close> reaches the length of \<open>float64pow10\<close>
  (\<open>i \<ge> j\<close> throughout, so the unsigned subtraction does not wrap).
\<close>

fun frac_loop :: "string \<Rightarrow> nat \<Rightarrow> nat \<Rightarrow> 64 word \<Rightarrow> (nat \<times> 64 word) option" where
  "frac_loop [] i j d = Some (i, d)"
| "frac_loop (c # cs) i j d =
     (if is_digit c then
        (let d' = d * 10 + of_nat (digit_val c); i' = i + 1
         in if i' - j \<ge> len_float64pow10 then None else frac_loop cs i' j d')
      else Some (i, d))"

text \<open>
  The loop over the exponent digits. \<open>exp\<close> is an \<open>int16\<close>; it is compared with 300
  after every digit, so it never exceeds 3009 and cannot wrap.
\<close>

fun exp_loop :: "string \<Rightarrow> nat \<Rightarrow> int \<Rightarrow> (nat \<times> int) option" where
  "exp_loop [] i e = Some (i, e)"
| "exp_loop (c # cs) i e =
     (if is_digit c then
        (let e' = e * 10 + int (digit_val c); i' = i + 1
         in if e' > 300 then None else exp_loop cs i' e')
      else Some (i, e))"

definition with_sign :: "bool \<Rightarrow> float64 \<Rightarrow> float64" where
  "with_sign neg f = (if neg then F_neg f else f)"

text \<open>The exponent part of \<open>Parse\<close>, entered at \<open>s[i]\<close> with the value \<open>f\<close> so far.\<close>

definition Parse_exponent :: "string \<Rightarrow> bool \<Rightarrow> nat \<Rightarrow> float64 \<Rightarrow> (num_error + float64) fpath" where
  "Parse_exponent s neg i f =
     (if s ! i = CHR ''e'' \<or> s ! i = CHR ''E'' then
        (let i1 = i + 1
         in if i1 \<ge> length s then Returns (Inl (CannotParseExponent s))
            else
              let signed = (s ! i1 = CHR ''+'' \<or> s ! i1 = CHR ''-'');
                  expMinus = (s ! i1 = CHR ''-'');
                  i2 = (if signed then i1 + 1 else i1)
              in if signed \<and> i2 \<ge> length s then Returns (Inl (CannotParseExponent s))
                 else case exp_loop (drop i2 s) i2 0 of
                        None \<Rightarrow> Fallback FromExponent
                      | Some (i3, e) \<Rightarrow>
                          if i3 \<le> i2 then Returns (Inl (CannotParseExponent s))
                          else
                            let f' = F_mul_Pow10 f (if expMinus then - e else e)
                            in if i3 \<ge> length s then Returns (Inr (with_sign neg f'))
                               else Returns (Inl (CannotParse s)))
      else Returns (Inl (CannotParse s)))"

text \<open>
  The fractional part of \<open>Parse\<close>, entered at \<open>s[i]\<close> (\<open>i < len(s)\<close>) with the mantissa
  \<open>d\<close> of the integer part. A number that ends with the decimal point returns
  \<open>f = float64(d)\<close> as it is: this \<open>return\<close> does not apply the sign.
\<close>

definition Parse_fraction :: "string \<Rightarrow> bool \<Rightarrow> nat \<Rightarrow> nat \<Rightarrow> 64 word \<Rightarrow> (num_error + float64) fpath" where
  "Parse_fraction s neg j i d =
     (if s ! i = CHR ''.'' then
        (let k = i + 1
         in if k \<ge> length s then Returns (Inr (F_uint64 d))
            else case frac_loop (drop k s) k j d of
                   None \<Rightarrow> Fallback FromMantissa
                 | Some (i2, d2) \<Rightarrow>
                     if i2 < k then Returns (Inl (CannotFindMantissa s))
                     else
                       let f = F_div_pow10 d2 (i2 - k)
                       in if i2 \<ge> length s then Returns (Inr (with_sign neg f))
                          else Parse_exponent s neg i2 f)
      else Parse_exponent s neg i (F_uint64 d))"

definition Parse :: "string \<Rightarrow> (num_error + float64) fpath" where
  "Parse s =
     (if length s = 0 then Returns (Inl EmptyString)
      else
        let minus = (s ! 0 = CHR ''-''); j = (if minus then 1 else 0)
        in if minus \<and> j \<ge> length s then Returns (Inl (CannotParse s))
           else if s ! j = CHR ''.'' \<and> (j + 1 \<ge> length s \<or> \<not> is_digit (s ! (j + 1)))
           then Returns (Inl (MissingIntAndFrac s))
           else case digits_loop (drop j s) j 0 of
                  None \<Rightarrow> Fallback FromIntegerPart
                | Some (i, d) \<Rightarrow>
                    if i \<le> j \<and> s ! i \<noteq> CHR ''.'' then
                      (case special_token (drop i s) minus of
                         (Some f, ss) \<Rightarrow> Returns (Inr f)
                       | (None, ss) \<Rightarrow> Returns (Inl (UnparsedTail s ss)))
                    else if i \<ge> length s then Returns (Inr (with_sign minus (F_uint64 d)))
                    else Parse_fraction s minus j i d)"




subsection \<open>Properties of the float parsers\<close>













text \<open>
  C1: the strict parsers return the library's numeric result wherever they do not fail.
  For \<open>ParseUint64\<close> and \<open>ParseInt64\<close> this holds (\<open>ParseUint64_iff\<close>,
  \<open>ParseInt64_sound\<close>). \<open>Parse\<close> breaks it: a number that ends with the decimal point is
  returned before the sign is applied, so \<open>-1.\<close> yields \<open>float64(1)\<close>, the value of \<open>1.\<close>,
  where \<open>strconv.ParseFloat\<close> yields \<open>-1\<close>; the sibling returns (\<open>-1\<close>, \<open>-1.0\<close>) negate.
\<close>

theorem Parse_trailing_point_drops_sign:
  "Parse ''-1.'' = Returns (Inr (F_uint64 1)) \<and>
   Parse ''1.'' = Returns (Inr (F_uint64 1)) \<and>
   Parse ''-1'' = Returns (Inr (F_neg (F_uint64 1))) \<and>
   Parse ''-1.0'' = Returns (Inr (F_neg (F_div_pow10 10 1)))"
  by (simp add: Parse_def Parse_fraction_def with_sign_def is_digit_def byte_def digit_val_def
      len_float64pow10_def Let_def)




section \<open>The parser\<close>

subsection \<open>Values\<close>

datatype Value =
    VNull
  | VTrue
  | VFalse
  | VNumber string
  | VString string
  | VRawString string
  | VArray "Value list"
  | VObject Object
and Object = Object (kvs: "kv list") (keysUnescaped: bool)
and kv = KV (kv_k: string) (kv_v: Value)

datatype parse_error =
    CannotParseEmptyString
  | TooBigDepth
  | CannotParseObject parse_error
  | CannotParseArray parse_error
  | CannotParseString parse_error
  | CannotParseNumber parse_error
  | UnexpectedValueFound string
  | MissingClosingBracket
  | CannotParseArrayValue parse_error
  | UnexpectedEndOfArray
  | MissingCommaAfterArrayValue
  | MissingClosingBrace
  | CannotFindOpeningQuoteForKey
  | CannotParseObjectKey parse_error
  | MissingColonAfterObjectKey
  | CannotParseObjectValue parse_error
  | UnexpectedEndOfObject
  | MissingCommaAfterObjectValue
  | MissingClosingQuote
  | UnexpectedChar string
  | CannotParseJSON parse_error string
  | UnexpectedTail string
  | errEOF
  | StringControlChar char
  | KeyControlChar char
  | TrailingBackslash string
  | TooShortEscapeSequence string
  | InvalidEscapeSequence string
  | UnknownEscapeSequence char
  | ZeroLengthNumber
  | MissingNumberAfterMinus
  | ExpectingDigit char
  | NumberStartingFromZero
  | MissingFractionalPart
  | ExpectingFractionalDigit char
  | MissingExponentPart
  | ExpectingExponentDigit char

type_synonym 'a result = "(parse_error \<times> string) + ('a \<times> string)"

definition MaxDepth :: nat where
  "MaxDepth = 300"

subsection \<open>Whitespace\<close>

definition is_ws :: "char \<Rightarrow> bool" where
  "is_ws c = (c = CHR 0x20 \<or> c = CHR 0x0A \<or> c = CHR 0x09 \<or> c = CHR 0x0D)"

definition skipWSSlow :: "string \<Rightarrow> string" where
  "skipWSSlow s = (if length s = 0 \<or> \<not> is_ws (hd s) then s else dropWhile is_ws (tl s))"

definition skipWS :: "string \<Rightarrow> string" where
  "skipWS s = (if length s = 0 \<or> byte (hd s) > 0x20 then s else skipWSSlow s)"

subsection \<open>Raw tokenizers\<close>

fun IndexByte :: "string \<Rightarrow> char \<Rightarrow> nat option" where
  "IndexByte [] c = None"
| "IndexByte (x # xs) c = (if x = c then Some 0 else map_option Suc (IndexByte xs c))"

fun back_run :: "string \<Rightarrow> nat \<Rightarrow> nat" where
  "back_run s 0 = 0"
| "back_run s (Suc i) = (if s ! i = backslash then back_run s i else Suc i)"

lemma IndexByte_SomeD:
  "IndexByte s c = Some n \<Longrightarrow> n < length s \<and> s ! n = c \<and> c \<notin> set (take n s)"
  by (induction s arbitrary: n) (auto split: if_splits)

lemma IndexByte_None: "IndexByte s c = None \<longleftrightarrow> c \<notin> set s"
  by (induction s) auto

function parseRawString_loop :: "string \<Rightarrow> string \<Rightarrow> nat \<Rightarrow> string result" where
  "parseRawString_loop ss s n =
     (let i = back_run s (n - 1)
      in if (n - i) mod 2 = 0 then Inr (take (length ss - length s + n) ss, drop (n + 1) s)
         else
           let s' = drop (n + 1) s
           in case IndexByte s' dquote of
                None \<Rightarrow> Inl (MissingClosingQuote, [])
              | Some n' \<Rightarrow>
                  if n' = 0 \<or> s' ! (n' - 1) \<noteq> backslash
                  then Inr (take (length ss - length s' + n') ss, drop (n' + 1) s')
                  else parseRawString_loop ss s' n')"
  by pat_completeness auto
termination
proof (relation "measure (\<lambda>(ss, s, n). length s)")
  show "wf (measure (\<lambda>(ss, s, n). length s))" by simp
next
  fix ss s :: string and n x xa x2
  assume "xa = drop (n + 1) s" and "IndexByte xa dquote = Some x2"
  then have "x2 < length (drop (n + 1) s)" by (auto dest: IndexByte_SomeD)
  then show "((ss, xa, x2), ss, s, n) \<in> measure (\<lambda>(ss, s, n). length s)"
    using \<open>xa = drop (n + 1) s\<close> by auto
qed

definition parseRawString :: "string \<Rightarrow> string result" where
  "parseRawString s =
     (case IndexByte s dquote of
        None \<Rightarrow> Inl (MissingClosingQuote, [])
      | Some n \<Rightarrow>
          if n = 0 \<or> s ! (n - 1) \<noteq> backslash then Inr (take n s, drop (n + 1) s)
          else parseRawString_loop s s n)"

fun parseRawKey_loop :: "string \<Rightarrow> string \<Rightarrow> nat \<Rightarrow> string result" where
  "parseRawKey_loop s [] i = Inl (MissingClosingQuote, [])"
| "parseRawKey_loop s (c # cs) i =
     (if c = dquote then Inr (take i s, drop (i + 1) s)
      else if c = backslash then parseRawString s
      else parseRawKey_loop s cs (i + 1))"

definition parseRawKey :: "string \<Rightarrow> string result" where
  "parseRawKey s = parseRawKey_loop s s 0"

definition is_number_char :: "char \<Rightarrow> bool" where
  "is_number_char ch = (is_digit ch \<or> ch = CHR ''.'' \<or> ch = CHR ''-'' \<or> ch = CHR ''e''
                        \<or> ch = CHR ''E'' \<or> ch = CHR ''+'')"

fun parseRawNumber_loop :: "string \<Rightarrow> string \<Rightarrow> nat \<Rightarrow> string result" where
  "parseRawNumber_loop s [] i = Inr (s, [])"
| "parseRawNumber_loop s (ch # cs) i =
     (if is_number_char ch then parseRawNumber_loop s cs (i + 1)
      else if i = 0 \<or> (i = 1 \<and> (s ! 0 = CHR ''-'' \<or> s ! 0 = CHR ''+'')) then
        (if length (drop i s) \<ge> 3 \<and>
            (EqualFold (take 3 (drop i s)) ''inf'' \<or> EqualFold (take 3 (drop i s)) ''nan'')
         then Inr (take (i + 3) s, drop (i + 3) s)
         else Inl (UnexpectedChar (take 1 s), s))
      else Inr (take i s, drop i s))"

definition parseRawNumber :: "string \<Rightarrow> string result" where
  "parseRawNumber s = parseRawNumber_loop s s 0"

lemma skipWS_length: "length (skipWS s) \<le> length s"
proof -
  have "length (dropWhile is_ws (tl s)) \<le> length (tl s)" by (rule length_dropWhile_le)
  then show ?thesis by (auto simp: skipWS_def skipWSSlow_def)
qed

lemma parseRawString_loop_tail:
  "parseRawString_loop ss s n = Inr (r, t) \<Longrightarrow> n < length s \<Longrightarrow> length t < length s"
proof (induction ss s n rule: parseRawString_loop.induct)
  case (1 ss s n)
  show ?case
  proof (cases "(n - back_run s (n - 1)) mod 2 = 0")
    case True
    with "1.prems" show ?thesis by (auto simp: Let_def)
  next
    case False
    let ?s' = "drop (n + 1) s"
    from False "1.prems" obtain n' where n': "IndexByte ?s' dquote = Some n'"
      by (auto simp: Let_def split: option.splits)
    then have lt: "n' < length ?s'" by (auto dest: IndexByte_SomeD)
    show ?thesis
    proof (cases "n' = 0 \<or> ?s' ! (n' - 1) \<noteq> backslash")
      case True
      with False n' "1.prems" have "t = drop (n' + 1) ?s'" by (auto simp: Let_def)
      with lt show ?thesis by auto
    next
      case nf: False
      with False n' "1.prems" have "parseRawString_loop ss ?s' n' = Inr (r, t)"
        by (auto simp: Let_def)
      from "1.IH" [OF refl False refl n' nf this lt] have "length t < length ?s'" .
      then show ?thesis by auto
    qed
  qed
qed

lemma parseRawString_tail:
  assumes "parseRawString s = Inr (r, t)"
  shows "length t < length s"
proof -
  from assms obtain n where n: "IndexByte s dquote = Some n"
    by (auto simp: parseRawString_def split: option.splits)
  then have lt: "n < length s" by (auto dest: IndexByte_SomeD)
  show ?thesis
  proof (cases "n = 0 \<or> s ! (n - 1) \<noteq> backslash")
    case True
    with assms n have "t = drop (n + 1) s" by (auto simp: parseRawString_def)
    with lt show ?thesis by simp
  next
    case False
    with assms n have "parseRawString_loop s s n = Inr (r, t)"
      by (auto simp: parseRawString_def)
    from parseRawString_loop_tail [OF this lt] show ?thesis .
  qed
qed

lemma parseRawKey_loop_tail:
  "parseRawKey_loop s cs i = Inr (r, t) \<Longrightarrow> i + length cs = length s \<Longrightarrow> length t < length s"
proof (induction cs arbitrary: i)
  case Nil
  then show ?case by simp
next
  case (Cons c cs)
  from Cons.prems(2) have i: "i < length s" and cs: "(i + 1) + length cs = length s" by simp_all
  show ?case
  proof (cases "c = dquote")
    case True
    with Cons.prems i show ?thesis by auto
  next
    case nq: False
    show ?thesis
    proof (cases "c = backslash")
      case True
      with nq Cons.prems(1) show ?thesis by (auto dest: parseRawString_tail)
    next
      case False
      with nq Cons.prems(1) have "parseRawKey_loop s cs (i + 1) = Inr (r, t)" by simp
      from Cons.IH [OF this cs] show ?thesis .
    qed
  qed
qed

lemma parseRawKey_tail: "parseRawKey s = Inr (r, t) \<Longrightarrow> length t < length s"
  unfolding parseRawKey_def by (erule parseRawKey_loop_tail) simp

lemma parseRawNumber_loop_tail:
  "parseRawNumber_loop s cs i = Inr (r, t) \<Longrightarrow> i + length cs = length s \<Longrightarrow> s \<noteq> []
     \<Longrightarrow> length t < length s"
proof (induction cs arbitrary: i)
  case Nil
  then show ?case by simp
next
  case (Cons c cs)
  from Cons.prems(2) have i: "i < length s" and cs: "(i + 1) + length cs = length s" by simp_all
  show ?case
  proof (cases "is_number_char c")
    case True
    with Cons.prems(1) have "parseRawNumber_loop s cs (i + 1) = Inr (r, t)" by simp
    from Cons.IH [OF this cs Cons.prems(3)] show ?thesis .
  next
    case False
    with Cons.prems(1) i show ?thesis by (auto split: if_splits)
  qed
qed

lemma parseRawNumber_tail: "parseRawNumber s = Inr (r, t) \<Longrightarrow> s \<noteq> [] \<Longrightarrow> length t < length s"
  unfolding parseRawNumber_def by (erule parseRawNumber_loop_tail) simp_all

function parseValue :: "string \<Rightarrow> nat \<Rightarrow> Value result"
  and parseArray :: "string \<Rightarrow> nat \<Rightarrow> Value result"
  and parseArray_loop :: "string \<Rightarrow> nat \<Rightarrow> Value list \<Rightarrow> Value result"
  and parseObject :: "string \<Rightarrow> nat \<Rightarrow> Value result"
  and parseObject_loop :: "string \<Rightarrow> nat \<Rightarrow> kv list \<Rightarrow> Value result"
where
  "parseValue s depth0 =
     (if length s = 0 then Inl (CannotParseEmptyString, s)
      else
        let depth = depth0 + 1
        in if depth > MaxDepth then Inl (TooBigDepth, s)
           else if hd s = CHR ''{'' then
             (case parseObject (tl s) depth of
                Inl (err, tail) \<Rightarrow> Inl (CannotParseObject err, tail)
              | Inr (v, tail) \<Rightarrow> Inr (v, tail))
           else if hd s = CHR ''['' then
             (case parseArray (tl s) depth of
                Inl (err, tail) \<Rightarrow> Inl (CannotParseArray err, tail)
              | Inr (v, tail) \<Rightarrow> Inr (v, tail))
           else if hd s = dquote then
             (case parseRawString (tl s) of
                Inl (err, tail) \<Rightarrow> Inl (CannotParseString err, tail)
              | Inr (ss, tail) \<Rightarrow> Inr (VRawString ss, tail))
           else if hd s = CHR ''t'' then
             (if length s < 4 \<or> take 4 s \<noteq> ''true'' then Inl (UnexpectedValueFound s, s)
              else Inr (VTrue, drop 4 s))
           else if hd s = CHR ''f'' then
             (if length s < 5 \<or> take 5 s \<noteq> ''false'' then Inl (UnexpectedValueFound s, s)
              else Inr (VFalse, drop 5 s))
           else if hd s = CHR ''n'' then
             (if length s < 4 \<or> take 4 s \<noteq> ''null'' then
                (if length s \<ge> 3 \<and> EqualFold (take 3 s) ''nan''
                 then Inr (VNumber (take 3 s), drop 3 s)
                 else Inl (UnexpectedValueFound s, s))
              else Inr (VNull, drop 4 s))
           else
             (case parseRawNumber s of
                Inl (err, tail) \<Rightarrow> Inl (CannotParseNumber err, tail)
              | Inr (ns, tail) \<Rightarrow> Inr (VNumber ns, tail)))"
| "parseArray s0 depth =
     (let s = skipWS s0
      in if length s = 0 then Inl (MissingClosingBracket, s)
         else if hd s = CHR '']'' then Inr (VArray [], tl s)
         else parseArray_loop s depth [])"
| "parseArray_loop s0 depth a =
     (case parseValue (skipWS s0) depth of
        Inl (err, s1) \<Rightarrow> Inl (CannotParseArrayValue err, s1)
      | Inr (v, s1) \<Rightarrow>
          (let a' = a @ [v]; s = skipWS s1
           in if length s = 0 then Inl (UnexpectedEndOfArray, s)
              else if hd s = CHR '','' then parseArray_loop (tl s) depth a'
              else if hd s = CHR '']'' then Inr (VArray a', tl s)
              else Inl (MissingCommaAfterArrayValue, s)))"
| "parseObject s0 depth =
     (let s = skipWS s0
      in if length s = 0 then Inl (MissingClosingBrace, s)
         else if hd s = CHR ''}'' then Inr (VObject (Object [] False), tl s)
         else parseObject_loop s depth [])"
| "parseObject_loop s0 depth kvs0 =
     (let s = skipWS s0
      in if length s = 0 \<or> hd s \<noteq> dquote then Inl (CannotFindOpeningQuoteForKey, s)
         else case parseRawKey (tl s) of
                Inl (err, s1) \<Rightarrow> Inl (CannotParseObjectKey err, s1)
              | Inr (k, s1) \<Rightarrow>
                  (let s2 = skipWS s1
                   in if length s2 = 0 \<or> hd s2 \<noteq> CHR '':'' then Inl (MissingColonAfterObjectKey, s2)
                      else case parseValue (skipWS (tl s2)) depth of
                             Inl (err, s3) \<Rightarrow> Inl (CannotParseObjectValue err, s3)
                           | Inr (v, s3) \<Rightarrow>
                               (let kvs' = kvs0 @ [KV k v]; s4 = skipWS s3
                                in if length s4 = 0 then Inl (UnexpectedEndOfObject, s4)
                                   else if hd s4 = CHR '','' then parseObject_loop (tl s4) depth kvs'
                                   else if hd s4 = CHR ''}''
                                   then Inr (VObject (Object kvs' False), tl s4)
                                   else Inl (MissingCommaAfterObjectValue, s4))))"
  by pat_completeness auto

lemma parse_tail_partial:
  "parseValue_parseArray_parseArray_loop_parseObject_parseObject_loop_dom (Inl (Inl (s, d)))
     \<Longrightarrow> parseValue s d = Inr (v, t) \<Longrightarrow> length t < length s"
  "parseValue_parseArray_parseArray_loop_parseObject_parseObject_loop_dom (Inl (Inr (s, d)))
     \<Longrightarrow> parseArray s d = Inr (v, t) \<Longrightarrow> length t < length s"
  "parseValue_parseArray_parseArray_loop_parseObject_parseObject_loop_dom (Inr (Inl (s, d, a)))
     \<Longrightarrow> parseArray_loop s d a = Inr (v, t) \<Longrightarrow> length t < length s"
  "parseValue_parseArray_parseArray_loop_parseObject_parseObject_loop_dom (Inr (Inr (Inl (s, d))))
     \<Longrightarrow> parseObject s d = Inr (v, t) \<Longrightarrow> length t < length s"
  "parseValue_parseArray_parseArray_loop_parseObject_parseObject_loop_dom (Inr (Inr (Inr (s, d, kv))))
     \<Longrightarrow> parseObject_loop s d kv = Inr (v, t) \<Longrightarrow> length t < length s"
proof (induct s d and s d and s d a and s d and s d kv arbitrary: v t and v t and v t and v t and v t
    rule: parseValue_parseArray_parseArray_loop_parseObject_parseObject_loop.pinduct)
  case (1 s depth0)
  from "1.prems" "1.hyps"(1) have ne: "s \<noteq> []" and dp: "\<not> MaxDepth < depth0 + 1"
    by (auto simp: parseValue.psimps Let_def split: if_splits)
  have tl: "length (tl s) < length s" using ne by (cases s) simp_all
  note eq = "1.prems" [unfolded parseValue.psimps [OF "1.hyps"(1)] Let_def]
  show ?case
  proof (cases "hd s = CHR ''{''")
    case True
    with eq ne dp have "parseObject (tl s) (depth0 + 1) = Inr (v, t)"
      by (auto split: sum.splits)
    from "1.hyps"(2) [OF _ refl dp True this] ne tl show ?thesis by simp
  next
    case no: False
    show ?thesis
    proof (cases "hd s = CHR ''[''")
      case True
      with eq ne dp no have "parseArray (tl s) (depth0 + 1) = Inr (v, t)"
        by (auto split: sum.splits)
      from "1.hyps"(3) [OF _ refl dp no True this] ne tl show ?thesis by simp
    next
      case na: False
      show ?thesis
      proof (cases "hd s = dquote")
        case True
        with eq ne dp no na obtain ss where "parseRawString (tl s) = Inr (ss, t)"
          by (auto split: sum.splits)
        from parseRawString_tail [OF this] tl show ?thesis by simp
      next
        case ns: False
        from eq ne dp no na ns show ?thesis
          by (auto split: sum.splits if_splits dest: parseRawNumber_tail)
      qed
    qed
  qed
next
  case (2 s0 depth)
  note eq = "2.prems" [unfolded parseArray.psimps [OF "2.hyps"(1)] Let_def]
  have le: "length (skipWS s0) \<le> length s0" by (rule skipWS_length)
  show ?case
  proof (cases "length (skipWS s0) = 0")
    case True
    with eq show ?thesis by simp
  next
    case ne: False
    then have tl: "length (tl (skipWS s0)) < length (skipWS s0)" by (cases "skipWS s0") simp_all
    show ?thesis
    proof (cases "hd (skipWS s0) = CHR '']''")
      case True
      with eq ne have "t = tl (skipWS s0)" by simp
      with tl le show ?thesis by simp
    next
      case False
      with eq ne have "parseArray_loop (skipWS s0) depth [] = Inr (v, t)" by simp
      from "2.hyps"(2) [OF refl ne False this] le show ?thesis by simp
    qed
  qed
next
  case (3 s0 depth a)
  note eq = "3.prems" [unfolded parseArray_loop.psimps [OF "3.hyps"(1)] Let_def]
  have le: "length (skipWS s0) \<le> length s0" by (rule skipWS_length)
  from eq obtain x s1 where pv: "parseValue (skipWS s0) depth = Inr (x, s1)"
    by (auto split: sum.splits)
  from "3.hyps"(2) [OF pv] have s1: "length s1 < length (skipWS s0)" .
  have le1: "length (skipWS s1) \<le> length s1" by (rule skipWS_length)
  from eq pv have ne: "length (skipWS s1) \<noteq> 0" by (auto split: if_splits)
  then have tl: "length (tl (skipWS s1)) < length (skipWS s1)" by (cases "skipWS s1") simp_all
  show ?case
  proof (cases "hd (skipWS s1) = CHR '',''")
    case True
    with eq pv ne have "parseArray_loop (tl (skipWS s1)) depth (a @ [x]) = Inr (v, t)" by simp
    from "3.hyps"(3) [OF pv refl refl refl ne True this] tl le1 s1 le show ?thesis by simp
  next
    case False
    with eq pv ne have "t = tl (skipWS s1)" by (auto split: if_splits)
    with tl le1 s1 le show ?thesis by simp
  qed
next
  case (4 s0 depth)
  note eq = "4.prems" [unfolded parseObject.psimps [OF "4.hyps"(1)] Let_def]
  have le: "length (skipWS s0) \<le> length s0" by (rule skipWS_length)
  show ?case
  proof (cases "length (skipWS s0) = 0")
    case True
    with eq show ?thesis by simp
  next
    case ne: False
    then have tl: "length (tl (skipWS s0)) < length (skipWS s0)" by (cases "skipWS s0") simp_all
    show ?thesis
    proof (cases "hd (skipWS s0) = CHR ''}''")
      case True
      with eq ne have "t = tl (skipWS s0)" by simp
      with tl le show ?thesis by simp
    next
      case False
      with eq ne have "parseObject_loop (skipWS s0) depth [] = Inr (v, t)" by simp
      from "4.hyps"(2) [OF refl ne False this] le show ?thesis by simp
    qed
  qed
next
  case (5 s0 depth kvs0)
  note eq = "5.prems" [unfolded parseObject_loop.psimps [OF "5.hyps"(1)] Let_def]
  let ?s = "skipWS s0"
  have le: "length ?s \<le> length s0" by (rule skipWS_length)
  from eq have c1: "\<not> (length ?s = 0 \<or> hd ?s \<noteq> dquote)" by (auto split: if_splits)
  then have tl: "length (tl ?s) < length ?s" by (cases ?s) simp_all
  from eq c1 obtain k s1 where pk: "parseRawKey (tl ?s) = Inr (k, s1)"
    by (auto split: sum.splits)
  from parseRawKey_tail [OF pk] have s1: "length s1 < length (tl ?s)" .
  let ?s2 = "skipWS s1"
  have le2: "length ?s2 \<le> length s1" by (rule skipWS_length)
  from eq c1 pk have c2: "\<not> (length ?s2 = 0 \<or> hd ?s2 \<noteq> CHR '':'')" by (auto split: if_splits)
  then have tl2: "length (tl ?s2) < length ?s2" by (cases ?s2) simp_all
  have le3: "length (skipWS (tl ?s2)) \<le> length (tl ?s2)" by (rule skipWS_length)
  from eq c1 pk c2 obtain x s3 where pv: "parseValue (skipWS (tl ?s2)) depth = Inr (x, s3)"
    by (auto split: sum.splits)
  from "5.hyps"(2) [OF refl c1 pk refl refl c2 pv] have s3: "length s3 < length (skipWS (tl ?s2))" .
  let ?s4 = "skipWS s3"
  have le4: "length ?s4 \<le> length s3" by (rule skipWS_length)
  from eq c1 pk c2 pv have ne4: "length ?s4 \<noteq> 0" by (auto split: if_splits)
  then have tl4: "length (tl ?s4) < length ?s4" by (cases ?s4) simp_all
  show ?case
  proof (cases "hd ?s4 = CHR '',''")
    case True
    with eq c1 pk c2 pv ne4
    have "parseObject_loop (tl ?s4) depth (kvs0 @ [KV k x]) = Inr (v, t)" by simp
    from "5.hyps"(3) [OF refl c1 pk refl refl c2 pv refl refl refl ne4 True this]
    have "length t < length (tl ?s4)" .
    with tl4 le4 s3 le3 tl2 le2 s1 tl le show ?thesis by simp
  next
    case False
    with eq c1 pk c2 pv ne4 have "t = tl ?s4" by (auto split: if_splits)
    with tl4 le4 s3 le3 tl2 le2 s1 tl le show ?thesis by simp
  qed
qed

termination parseValue
proof (relation "measure (\<lambda>x. case x of
      Inl (Inl (s, d)) \<Rightarrow> 4 * length s
    | Inl (Inr (s, d)) \<Rightarrow> 4 * length s + 2
    | Inr (Inl (s, d, a)) \<Rightarrow> 4 * length s + 1
    | Inr (Inr (Inl (s, d))) \<Rightarrow> 4 * length s + 2
    | Inr (Inr (Inr (s, d, kv))) \<Rightarrow> 4 * length s + 1)", goal_cases)
  case 1
  show ?case by simp
next
  case (2 s depth0 x)
  then show ?case by (cases s) simp_all
next
  case (3 s depth0 x)
  then show ?case by (cases s) simp_all
next
  case (4 s0 depth x)
  then show ?case using skipWS_length [of s0] by simp
next
  case (5 s0 depth a)
  then show ?case using skipWS_length [of s0] by simp
next
  case (6 s0 depth a b x y xa xb)
  from 6 have pv: "parseValue (skipWS s0) depth = Inr (x, y)" by simp
  from 6 have dom: "parseValue_parseArray_parseArray_loop_parseObject_parseObject_loop_dom (Inl (Inl (skipWS s0, depth)))" by simp
  from parse_tail_partial(1) [OF dom pv] have "length y < length (skipWS s0)" .
  moreover have "length (skipWS y) \<le> length y" by (rule skipWS_length)
  moreover have "length (skipWS s0) \<le> length s0" by (rule skipWS_length)
  moreover from 6 have "length (tl xb) < length (skipWS y)" by (cases xb) simp_all
  ultimately show ?case by simp
next
  case (7 s0 depth x)
  then show ?case using skipWS_length [of s0] by simp
next
  case (8 s0 depth kvs0 x b xa y xb)
  from 8 have ne: "x \<noteq> []" "xb \<noteq> []" by auto
  from 8 have "parseRawKey (tl x) = Inr (xa, y)" by simp
  from parseRawKey_tail [OF this] have "length y < length (tl x)" .
  moreover from 8 have "length xb \<le> length y" by (simp add: skipWS_length)
  moreover have "length (skipWS (tl xb)) \<le> length (tl xb)" by (rule skipWS_length)
  moreover from 8 have "length x \<le> length s0" by (simp add: skipWS_length)
  moreover from ne have "length (tl x) < length x" by (cases x) simp_all
  moreover from ne have "length (tl xb) < length xb" by (cases xb) simp_all
  ultimately show ?case by simp
next
  case (9 s0 depth kvs0 x b xa y xb ba xc ya xd xe)
  from 9 have ne: "x \<noteq> []" "xb \<noteq> []" "xe \<noteq> []" by auto
  from 9 have "parseRawKey (tl x) = Inr (xa, y)" by simp
  from parseRawKey_tail [OF this] have "length y < length (tl x)" .
  moreover from 9 have "length xb \<le> length y" by (simp add: skipWS_length)
  moreover have "length (skipWS (tl xb)) \<le> length (tl xb)" by (rule skipWS_length)
  moreover from 9 have "length x \<le> length s0" by (simp add: skipWS_length)
  moreover from ne have "length (tl x) < length x" by (cases x) simp_all
  moreover from ne have "length (tl xb) < length xb" by (cases xb) simp_all
  moreover from ne have "length (tl xe) < length xe" by (cases xe) simp_all
  moreover from 9 have pv: "parseValue (skipWS (tl xb)) depth = Inr (xc, ya)"
    by simp
  from 9 have dom: "parseValue_parseArray_parseArray_loop_parseObject_parseObject_loop_dom (Inl (Inl (skipWS (tl xb), depth)))" by simp
  from parse_tail_partial(1) [OF dom pv] have "length ya < length (skipWS (tl xb))" .
  moreover from 9 have "length xe \<le> length ya" by (simp add: skipWS_length)
  ultimately show ?case by simp
qed

declare parseValue.simps [simp del] parseArray.simps [simp del] parseArray_loop.simps [simp del]
  parseObject.simps [simp del] parseObject_loop.simps [simp del]
  parseRawString_loop.simps [simp del]

definition Parser_Parse :: "string \<Rightarrow> parse_error + Value" where
  "Parser_Parse s0 =
     (let s = skipWS s0
      in case parseValue s 0 of
           Inl (err, tail) \<Rightarrow> Inl (CannotParseJSON err tail)
         | Inr (v, tail0) \<Rightarrow>
             (let tail = skipWS tail0
              in if length tail > 0 then Inl (UnexpectedTail tail) else Inr v))"

subsection \<open>Nesting depth\<close>

text \<open>
  The nesting depth of a JSON text is the largest number of arrays and objects that are
  open at once. It is read off the text alone: an opening bracket or brace outside a
  string literal opens a container, a closing one closes it, and inside a string literal
  a backslash escapes the byte after it.
\<close>

datatype lex_state = Outside | Inside | Escaped

fun scan_step :: "lex_state \<times> nat \<times> nat \<Rightarrow> char \<Rightarrow> lex_state \<times> nat \<times> nat" where
  "scan_step (Escaped, cur, mx) c = (Inside, cur, mx)"
| "scan_step (Inside, cur, mx) c =
     (if c = backslash then (Escaped, cur, mx)
      else if c = dquote then (Outside, cur, mx)
      else (Inside, cur, mx))"
| "scan_step (Outside, cur, mx) c =
     (if c = dquote then (Inside, cur, mx)
      else if c = CHR ''['' \<or> c = CHR ''{'' then (Outside, Suc cur, max mx (Suc cur))
      else if c = CHR '']'' \<or> c = CHR ''}'' then (Outside, cur - 1, mx)
      else (Outside, cur, mx))"

definition scan :: "lex_state \<times> nat \<times> nat \<Rightarrow> string \<Rightarrow> lex_state \<times> nat \<times> nat" where
  "scan st s = foldl scan_step st s"

definition nesting_depth :: "string \<Rightarrow> nat" where
  "nesting_depth s = snd (snd (scan (Outside, 0, 0) s))"

text \<open>The bytes that neither open or close a container nor start a string literal.\<close>

definition plain :: "char \<Rightarrow> bool" where
  "plain c = (c \<noteq> dquote \<and> c \<noteq> CHR ''['' \<and> c \<noteq> CHR ''{'' \<and> c \<noteq> CHR '']'' \<and> c \<noteq> CHR ''}'')"

text \<open>
  Three notions for the proofs about \<open>scan\<close>.
  \<open>spans u n\<close>: the scan of \<open>u\<close> starts and ends outside a string literal, ends with
  as many containers open as it started with, and has up to \<open>n\<close> more open on the way.
  \<open>closes u n\<close>: the same for the rest of a container after its opening bracket, which
  ends with one container less open.
  \<open>opens u n\<close>: the scan of \<open>u\<close> starts and ends outside a string literal and ends
  with \<open>n\<close> more containers open.
\<close>

definition spans :: "string \<Rightarrow> nat \<Rightarrow> bool" where
  "spans u n \<longleftrightarrow>
     (\<forall>cur mx. cur \<le> mx \<longrightarrow> scan (Outside, cur, mx) u = (Outside, cur, max mx (cur + n)))"

definition closes :: "string \<Rightarrow> nat \<Rightarrow> bool" where
  "closes u n \<longleftrightarrow>
     (\<forall>cur mx. Suc cur \<le> mx \<longrightarrow> scan (Outside, Suc cur, mx) u = (Outside, cur, max mx (Suc cur + n)))"

definition opens :: "string \<Rightarrow> nat \<Rightarrow> bool" where
  "opens u n \<longleftrightarrow>
     (\<forall>cur mx. cur \<le> mx \<longrightarrow> (\<exists>mx'. scan (Outside, cur, mx) u = (Outside, cur + n, mx') \<and> cur + n \<le> mx'))"

text \<open>The nesting depth of a value: the number of containers nested in it.\<close>

fun nesting :: "Value \<Rightarrow> nat"
  and nestings :: "Value list \<Rightarrow> nat"
  and onesting :: "Object \<Rightarrow> nat"
  and knestings :: "kv list \<Rightarrow> nat"
  and knesting :: "kv \<Rightarrow> nat"
where
  "nesting (VArray a) = Suc (nestings a)"
| "nesting (VObject ob) = Suc (onesting ob)"
| "nesting VNull = 0"
| "nesting VTrue = 0"
| "nesting VFalse = 0"
| "nesting (VNumber s) = 0"
| "nesting (VString s) = 0"
| "nesting (VRawString s) = 0"
| "nestings [] = 0"
| "nestings (x # xs) = max (nesting x) (nestings xs)"
| "onesting (Object ents ku) = knestings ents"
| "knestings [] = 0"
| "knestings (e # es) = max (knesting e) (knestings es)"
| "knesting (KV key val) = nesting val"

text \<open>
  An error of \<open>parseValue\<close> is a depth error when it is the error of the depth check,
  wrapped by the containers it was met in; \<open>containers\<close> counts these containers.
\<close>

fun is_depth_error :: "parse_error \<Rightarrow> bool" where
  "is_depth_error TooBigDepth = True"
| "is_depth_error (CannotParseObject e) = is_depth_error e"
| "is_depth_error (CannotParseArray e) = is_depth_error e"
| "is_depth_error (CannotParseObjectValue e) = is_depth_error e"
| "is_depth_error (CannotParseArrayValue e) = is_depth_error e"
| "is_depth_error (CannotParseJSON e tail) = is_depth_error e"
| "is_depth_error _ = False"

fun containers :: "parse_error \<Rightarrow> nat" where
  "containers (CannotParseObject e) = Suc (containers e)"
| "containers (CannotParseArray e) = Suc (containers e)"
| "containers (CannotParseObjectValue e) = containers e"
| "containers (CannotParseArrayValue e) = containers e"
| "containers (CannotParseJSON e tail) = containers e"
| "containers _ = 0"

text \<open>\<open>n + 1\<close> arrays, each the only item of the one around it, the innermost empty.\<close>

fun nested :: "nat \<Rightarrow> Value" where
  "nested 0 = VArray []"
| "nested (Suc n) = VArray [nested n]"

text \<open>The depth error met inside \<open>n\<close> arrays.\<close>

fun array_depth_error :: "nat \<Rightarrow> parse_error" where
  "array_depth_error 0 = TooBigDepth"
| "array_depth_error (Suc n) = CannotParseArray (CannotParseArrayValue (array_depth_error n))"

subsection \<open>The string unescaper\<close>

text \<open>
  Library functions used by the unescaper, modelled after the Go standard library:
  \<open>strconv.ParseUint(xs, 16, 16)\<close> on a string of four bytes (every byte must be a
  hexadecimal digit; four digits always fit 16 bits), \<open>utf16.IsSurrogate\<close>,
  \<open>utf16.DecodeRune\<close> (U+FFFD unless the first rune is a high and the second a low
  surrogate) and the conversion \<open>string(rune)\<close> (the UTF-8 encoding; U+FFFD for a
  surrogate or a value above U+10FFFF).
\<close>

definition hex_val :: "char \<Rightarrow> nat option" where
  "hex_val c =
     (if is_digit c then Some (digit_val c)
      else if byte (CHR ''a'') \<le> byte (to_lower c) \<and> byte (to_lower c) \<le> byte (CHR ''f'')
      then Some (byte (to_lower c) - byte (CHR ''a'') + 10)
      else None)"

fun ParseUint_hex :: "string \<Rightarrow> nat \<Rightarrow> nat option" where
  "ParseUint_hex [] n = Some n"
| "ParseUint_hex (c # cs) n =
     (case hex_val c of None \<Rightarrow> None | Some d \<Rightarrow> ParseUint_hex cs (n * 16 + d))"

definition IsSurrogate :: "nat \<Rightarrow> bool" where
  "IsSurrogate r = (0xD800 \<le> r \<and> r < 0xE000)"

definition DecodeRune :: "nat \<Rightarrow> nat \<Rightarrow> nat" where
  "DecodeRune r1 r2 =
     (if 0xD800 \<le> r1 \<and> r1 < 0xDC00 \<and> 0xDC00 \<le> r2 \<and> r2 < 0xE000
      then (r1 - 0xD800) * 0x400 + (r2 - 0xDC00) + 0x10000
      else 0xFFFD)"

definition utf8_3 :: "nat \<Rightarrow> string" where
  "utf8_3 r = [char_of (0xE0 + r div 0x1000), char_of (0x80 + r div 0x40 mod 0x40),
               char_of (0x80 + r mod 0x40)]"

definition string_of_rune :: "nat \<Rightarrow> string" where
  "string_of_rune r =
     (if r \<le> 0x7F then [char_of r]
      else if r \<le> 0x7FF then [char_of (0xC0 + r div 0x40), char_of (0x80 + r mod 0x40)]
      else if r > 0x10FFFF \<or> IsSurrogate r then utf8_3 0xFFFD
      else if r \<le> 0xFFFF then utf8_3 r
      else [char_of (0xF0 + r div 0x40000), char_of (0x80 + r div 0x1000 mod 0x40),
            char_of (0x80 + r div 0x40 mod 0x40), char_of (0x80 + r mod 0x40)])"

text \<open>
  One turn of the \<open>switch\<close>: \<open>ch\<close> is the byte after the backslash and \<open>s\<close> what
  follows it. The result is the bytes appended to \<open>b\<close> and the rest of \<open>s\<close>.
\<close>

definition unescape_switch :: "char \<Rightarrow> string \<Rightarrow> string \<times> string" where
  "unescape_switch ch s =
     (if ch = dquote then ([dquote], s)
      else if ch = backslash then ([backslash], s)
      else if ch = CHR ''/'' then (''/'', s)
      else if ch = CHR ''b'' then ([CHR 0x08], s)
      else if ch = CHR ''f'' then ([CHR 0x0C], s)
      else if ch = CHR ''n'' then ([CHR 0x0A], s)
      else if ch = CHR ''r'' then ([CHR 0x0D], s)
      else if ch = CHR ''t'' then ([CHR 0x09], s)
      else if ch = CHR ''u'' then
        (if length s < 4 then ([backslash, CHR ''u''], s)
         else
           let xs = take 4 s
           in case ParseUint_hex xs 0 of
                None \<Rightarrow> ([backslash, CHR ''u''], s)
              | Some x \<Rightarrow>
                  (let s1 = drop 4 s
                   in if \<not> IsSurrogate x then (string_of_rune x, s1)
                      else if length s1 < 6 \<or> s1 ! 0 \<noteq> backslash \<or> s1 ! 1 \<noteq> CHR ''u''
                      then ([backslash, CHR ''u''] @ xs, s1)
                      else case ParseUint_hex (take 4 (drop 2 s1)) 0 of
                             None \<Rightarrow> ([backslash, CHR ''u''] @ xs, s1)
                           | Some x1 \<Rightarrow> (string_of_rune (DecodeRune x x1), drop 6 s1)))
      else ([backslash, ch], s))"

lemma unescape_switch_length: "length (snd (unescape_switch ch s)) \<le> length s"
  by (auto simp: unescape_switch_def Let_def split: option.splits)

function unescape_loop :: "string \<Rightarrow> string \<Rightarrow> string" where
  "unescape_loop b s =
     (if length s > 0 then
        (case unescape_switch (hd s) (tl s) of
           (out, s1) \<Rightarrow>
             (case IndexByte s1 backslash of
                None \<Rightarrow> b @ out @ s1
              | Some n \<Rightarrow> unescape_loop (b @ out @ take n s1) (drop (n + 1) s1)))
      else b)"
  by pat_completeness auto
termination
proof (relation "measure (\<lambda>(b, s). length s)", goal_cases)
  case 1
  show ?case by simp
next
  case (2 b s out s1 n)
  from 2 have "s1 = snd (unescape_switch (hd s) (tl s))" by (metis snd_conv)
  with unescape_switch_length [of "hd s" "tl s"] have "length s1 \<le> length (tl s)"
    by (simp only:)
  moreover from 2 have "length (tl s) < length s" by (cases s) simp_all
  ultimately show ?case by simp
qed

declare unescape_loop.simps [simp del]

definition unescapeStringBestEffort :: "string \<Rightarrow> string" where
  "unescapeStringBestEffort s =
     (case IndexByte s backslash of
        None \<Rightarrow> s
      | Some n \<Rightarrow> unescape_loop (take n s) (drop (n + 1) s))"

subsection \<open>Serialisation\<close>

definition hasSpecialChars :: "string \<Rightarrow> bool" where
  "hasSpecialChars s =
     (IndexByte s dquote \<noteq> None \<or> IndexByte s backslash \<noteq> None \<or> (\<exists>c\<in>set s. byte c < 0x20))"

text \<open>
  \<open>strconv.AppendQuote\<close> belongs to the standard library; it is the parameter \<open>quote\<close>
  of the serialiser (\<open>quote dst s\<close> is \<open>strconv.AppendQuote(dst, s)\<close>).
\<close>

definition escapeString :: "(string \<Rightarrow> string \<Rightarrow> string) \<Rightarrow> string \<Rightarrow> string \<Rightarrow> string" where
  "escapeString quote dst s =
     (if \<not> hasSpecialChars s then dst @ [dquote] @ s @ [dquote] else quote dst s)"

fun MarshalTo :: "(string \<Rightarrow> string \<Rightarrow> string) \<Rightarrow> Value \<Rightarrow> string \<Rightarrow> string"
  and Array_MarshalTo_loop :: "(string \<Rightarrow> string \<Rightarrow> string) \<Rightarrow> Value list \<Rightarrow> string \<Rightarrow> string"
  and Object_MarshalTo :: "(string \<Rightarrow> string \<Rightarrow> string) \<Rightarrow> Object \<Rightarrow> string \<Rightarrow> string"
  and Object_MarshalTo_loop :: "(string \<Rightarrow> string \<Rightarrow> string) \<Rightarrow> bool \<Rightarrow> kv list \<Rightarrow> string \<Rightarrow> string"
where
  "MarshalTo quote (VRawString s) dst = dst @ [dquote] @ s @ [dquote]"
| "MarshalTo quote (VObject ob) dst = Object_MarshalTo quote ob dst"
| "MarshalTo quote (VArray a) dst = Array_MarshalTo_loop quote a (dst @ ''['') @ '']''"
| "MarshalTo quote (VString s) dst = escapeString quote dst s"
| "MarshalTo quote (VNumber s) dst = dst @ s"
| "MarshalTo quote VTrue dst = dst @ ''true''"
| "MarshalTo quote VFalse dst = dst @ ''false''"
| "MarshalTo quote VNull dst = dst @ ''null''"
| "Array_MarshalTo_loop quote [] dst = dst"
| "Array_MarshalTo_loop quote (vv # rest) dst =
     (let dst1 = MarshalTo quote vv dst;
          dst2 = (if rest \<noteq> [] then dst1 @ '','' else dst1)
      in Array_MarshalTo_loop quote rest dst2)"
| "Object_MarshalTo quote (Object ents ku) dst =
     Object_MarshalTo_loop quote ku ents (dst @ ''{'') @ ''}''"
| "Object_MarshalTo_loop quote ku [] dst = dst"
| "Object_MarshalTo_loop quote ku (KV k v # rest) dst =
     (let dst1 = (if ku then escapeString quote dst k else dst @ [dquote] @ k @ [dquote]);
          dst2 = MarshalTo quote v (dst1 @ '':'');
          dst3 = (if rest \<noteq> [] then dst2 @ '','' else dst2)
      in Object_MarshalTo_loop quote ku rest dst3)"

subsection \<open>Objects\<close>

text \<open>
  An \<open>Object\<close> is mutated in place by its methods; each method of the model returns the
  object as the call leaves it. The receiver is taken to be non-nil.
\<close>

definition unescapeKeys :: "Object \<Rightarrow> Object" where
  "unescapeKeys ob =
     (if keysUnescaped ob then ob
      else Object (map (\<lambda>e. KV (unescapeStringBestEffort (kv_k e)) (kv_v e)) (kvs ob)) True)"

text \<open>\<open>for _, kv := range o.kvs { if kv.k == key { return kv.v } }\<close>\<close>

fun find_key :: "kv list \<Rightarrow> string \<Rightarrow> Value option" where
  "find_key [] key = None"
| "find_key (e # rest) key = (if kv_k e = key then Some (kv_v e) else find_key rest key)"

definition Object_Get :: "Object \<Rightarrow> string \<Rightarrow> Value option \<times> Object" where
  "Object_Get ob key =
     (case (if \<not> keysUnescaped ob \<and> IndexByte key backslash = None
            then find_key (kvs ob) key else None) of
        Some val \<Rightarrow> (Some val, ob)
      | None \<Rightarrow> (let ob' = unescapeKeys ob in (find_key (kvs ob') key, ob')))"

text \<open>
  \<open>Visit\<close> calls \<open>f\<close> for each entry; the callback is a state transformer, and the
  result is the state after the last call.
\<close>

definition Object_Visit :: "('a \<Rightarrow> string \<Rightarrow> Value \<Rightarrow> 'a) \<Rightarrow> 'a \<Rightarrow> Object \<Rightarrow> 'a \<times> Object" where
  "Object_Visit f st ob =
     (let ob' = unescapeKeys ob
      in (foldl (\<lambda>st e. f st (kv_k e) (kv_v e)) st (kvs ob'), ob'))"

text \<open>
  \<open>for i, kv := range o.kvs { if kv.k == key { o.kvs = append(o.kvs[:i], o.kvs[i+1:]...); return } }\<close>:
  \<open>None\<close> when the loop ends without a match.
\<close>

fun delete_key :: "kv list \<Rightarrow> string \<Rightarrow> kv list option" where
  "delete_key [] key = None"
| "delete_key (e # rest) key =
     (if kv_k e = key then Some rest else map_option ((#) e) (delete_key rest key))"

definition Object_Del :: "Object \<Rightarrow> string \<Rightarrow> Object" where
  "Object_Del ob key =
     (case (if \<not> keysUnescaped ob \<and> IndexByte key backslash = None
            then delete_key (kvs ob) key else None) of
        Some ents \<Rightarrow> Object ents (keysUnescaped ob)
      | None \<Rightarrow>
          (let ob' = unescapeKeys ob
           in case delete_key (kvs ob') key of
                Some ents \<Rightarrow> Object ents (keysUnescaped ob')
              | None \<Rightarrow> ob'))"

fun set_key :: "kv list \<Rightarrow> string \<Rightarrow> Value \<Rightarrow> kv list" where
  "set_key [] key val = [KV key val]"
| "set_key (e # rest) key val =
     (if kv_k e = key then KV (kv_k e) val # rest else e # set_key rest key val)"

definition Object_Set :: "Object \<Rightarrow> string \<Rightarrow> Value option \<Rightarrow> Object" where
  "Object_Set ob key value0 =
     (let val = (case value0 of None \<Rightarrow> VNull | Some x \<Rightarrow> x);
          ob' = unescapeKeys ob
      in Object (set_key (kvs ob') key val) (keysUnescaped ob'))"

subsection \<open>Types\<close>

datatype Type =
    TypeNull | TypeObject | TypeArray | TypeString | TypeNumber | TypeTrue | TypeFalse
  | typeRawString

fun Value_t :: "Value \<Rightarrow> Type" where
  "Value_t VNull = TypeNull"
| "Value_t VTrue = TypeTrue"
| "Value_t VFalse = TypeFalse"
| "Value_t (VNumber s) = TypeNumber"
| "Value_t (VString s) = TypeString"
| "Value_t (VRawString s) = typeRawString"
| "Value_t (VArray a) = TypeArray"
| "Value_t (VObject ob) = TypeObject"

text \<open>\<open>Type\<close> upgrades a raw string in place; the model returns the type and the value.\<close>

fun Value_Type :: "Value \<Rightarrow> Type \<times> Value" where
  "Value_Type (VRawString s) = (TypeString, VString (unescapeStringBestEffort s))"
| "Value_Type val = (Value_t val, val)"

subsection \<open>The scanner\<close>

record Scanner =
  sc_s :: string
  sc_err :: "parse_error option"
  sc_v :: "Value option"

definition Scanner_Init :: "string \<Rightarrow> Scanner" where
  "Scanner_Init s = \<lparr>sc_s = s, sc_err = None, sc_v = None\<rparr>"

definition Scanner_Next :: "Scanner \<Rightarrow> bool \<times> Scanner" where
  "Scanner_Next sc =
     (if sc_err sc \<noteq> None then (False, sc)
      else
        let s = skipWS (sc_s sc)
        in if length s = 0 then (False, sc\<lparr>sc_s := s, sc_err := Some errEOF\<rparr>)
           else case parseValue s 0 of
                  Inl (err, tail) \<Rightarrow> (False, sc\<lparr>sc_s := s, sc_err := Some err\<rparr>)
                | Inr (val, tail) \<Rightarrow> (True, sc\<lparr>sc_s := tail, sc_v := Some val\<rparr>))"

definition Scanner_Error :: "Scanner \<Rightarrow> parse_error option" where
  "Scanner_Error sc = (if sc_err sc = Some errEOF then None else sc_err sc)"

definition Scanner_Value :: "Scanner \<Rightarrow> Value option" where
  "Scanner_Value sc = sc_v sc"

section \<open>The validator\<close>

text \<open>The exponent part of \<open>validateNumber\<close>, entered at \<open>s[i]\<close> with \<open>i < len(s)\<close>.\<close>

definition validateNumber_exponent :: "string \<Rightarrow> nat \<Rightarrow> (parse_error \<times> string) + string" where
  "validateNumber_exponent s i =
     (if s ! i = CHR ''e'' \<or> s ! i = CHR ''E'' then
        (let s1 = drop (i + 1) s
         in if length s1 = 0 then Inl (MissingExponentPart, s1)
            else
              let signed = (hd s1 = CHR ''-'' \<or> hd s1 = CHR ''+'');
                  s2 = (if signed then tl s1 else s1)
              in if signed \<and> length s2 = 0 then Inl (MissingExponentPart, s2)
                 else
                   let i2 = ndigits s2
                   in if i2 = 0 then Inl (ExpectingExponentDigit (hd s2), s2)
                      else if i2 \<ge> length s2 then Inr []
                      else Inr (drop i2 s2))
      else Inr (drop i s))"

definition validateNumber :: "string \<Rightarrow> (parse_error \<times> string) + string" where
  "validateNumber s0 =
     (if length s0 = 0 then Inl (ZeroLengthNumber, s0)
      else
        let neg = (hd s0 = CHR ''-''); s = (if neg then tl s0 else s0)
        in if neg \<and> length s = 0 then Inl (MissingNumberAfterMinus, s)
           else
             let i = ndigits s
             in if i \<le> 0 then Inl (ExpectingDigit (hd s), s)
                else if hd s = CHR ''0'' \<and> i \<noteq> 1 then Inl (NumberStartingFromZero, s)
                else if i \<ge> length s then Inr []
                else if s ! i = CHR ''.'' then
                  (let s1 = drop (i + 1) s
                   in if length s1 = 0 then Inl (MissingFractionalPart, s1)
                      else
                        let i1 = ndigits s1
                        in if i1 = 0 then Inl (ExpectingFractionalDigit (hd s1), s1)
                           else if i1 \<ge> length s1 then Inr []
                           else validateNumber_exponent s1 i1)
                else validateNumber_exponent s i)"

definition is_simple_escape :: "char \<Rightarrow> bool" where
  "is_simple_escape ch = (ch = dquote \<or> ch = backslash \<or> ch = CHR ''/'' \<or> ch = CHR ''b''
     \<or> ch = CHR ''f'' \<or> ch = CHR ''n'' \<or> ch = CHR ''r'' \<or> ch = CHR ''t'')"

text \<open>
  The loop of \<open>validateString\<close> over the escape sequences of \<open>rs\<close>. The loop shortens
  \<open>rs\<close> as it goes, and what it returns at the end is the \<open>rs\<close> that is left: the part
  of the string after its last escape sequence.
\<close>

function validateString_loop :: "string \<Rightarrow> string \<Rightarrow> (parse_error \<times> string) + (string \<times> string)" where
  "validateString_loop rs tail =
     (case IndexByte rs backslash of
        None \<Rightarrow> Inr (rs, tail)
      | Some n0 \<Rightarrow>
          (let n = n0 + 1
           in if n \<ge> length rs then Inl (TrailingBackslash rs, tail)
              else
                let ch = rs ! n; rs1 = drop (n + 1) rs
                in if is_simple_escape ch then validateString_loop rs1 tail
                   else if ch = CHR ''u'' then
                     (if length rs1 < 4 then Inl (TooShortEscapeSequence rs1, tail)
                      else case ParseUint_hex (take 4 rs1) 0 of
                             None \<Rightarrow> Inl (InvalidEscapeSequence (take 4 rs1), tail)
                           | Some x \<Rightarrow> validateString_loop (drop 4 rs1) tail)
                   else Inl (UnknownEscapeSequence ch, tail)))"
  by pat_completeness auto
termination
  by (relation "measure (\<lambda>(rs, tail). length rs)") auto

declare validateString_loop.simps [simp del]

definition validateString :: "string \<Rightarrow> (parse_error \<times> string) + (string \<times> string)" where
  "validateString s =
     (case (case IndexByte s dquote of
              None \<Rightarrow> None
            | Some n \<Rightarrow> if IndexByte (take n s) backslash = None then Some n else None) of
        Some n \<Rightarrow> Inr (take n s, drop (n + 1) s)
      | None \<Rightarrow>
          (case parseRawString s of
             Inl (err, tail) \<Rightarrow> Inl (err, tail)
           | Inr (rs, tail) \<Rightarrow> validateString_loop rs tail))"

fun validateKey_loop :: "string \<Rightarrow> string \<Rightarrow> nat \<Rightarrow> (parse_error \<times> string) + (string \<times> string)" where
  "validateKey_loop s [] i = Inl (MissingClosingQuote, s)"
| "validateKey_loop s (c # cs) i =
     (if c = dquote then Inr (take i s, drop (i + 1) s)
      else if c = backslash then validateString s
      else validateKey_loop s cs (i + 1))"

definition validateKey :: "string \<Rightarrow> (parse_error \<times> string) + (string \<times> string)" where
  "validateKey s = validateKey_loop s s 0"

text \<open>\<open>for i := 0; i < len(sv); i++ { if sv[i] < 0x20 { return ... sv[i] } }\<close>\<close>

definition control_char :: "string \<Rightarrow> char option" where
  "control_char sv = find (\<lambda>c. byte c < 0x20) sv"

lemma validateNumber_exponent_tail:
  "validateNumber_exponent s i = Inr t \<Longrightarrow> 0 < i \<Longrightarrow> i < length s \<Longrightarrow> length t < length s"
  by (auto simp: validateNumber_exponent_def Let_def split: if_splits)

lemma validateNumber_tail: "validateNumber s = Inr t \<Longrightarrow> length t < length s"
proof -
  assume a: "validateNumber s = Inr t"
  then have ne: "s \<noteq> []" by (auto simp: validateNumber_def)
  define s' where "s' = (if hd s = CHR ''-'' then tl s else s)"
  have le: "length s' \<le> length s" by (simp add: s'_def)
  from a ne have i: "0 < ndigits s'"
    by (auto simp: validateNumber_def Let_def s'_def split: if_splits)
  have il: "ndigits s' \<le> length s'" by (simp add: ndigits_def length_takeWhile_le)
  with i have ne': "0 < length s'" by linarith
  show ?thesis
  proof (cases "ndigits s' \<ge> length s'")
    case True
    with a ne i have "t = []" by (auto simp: validateNumber_def Let_def s'_def split: if_splits)
    with ne show ?thesis by simp
  next
    case False
    then have lt: "ndigits s' < length s'" by simp
    show ?thesis
    proof (cases "s' ! ndigits s' = CHR ''.''")
      case nd: False
      with a ne i lt have "validateNumber_exponent s' (ndigits s') = Inr t"
        by (auto simp: validateNumber_def Let_def s'_def split: if_splits)
      from validateNumber_exponent_tail [OF this i lt] le show ?thesis by simp
    next
      case True
      define s1 where "s1 = drop (ndigits s' + 1) s'"
      have l1: "length s1 < length s'" using lt by (simp add: s1_def)
      from a ne i lt True have i1: "0 < ndigits s1"
        by (auto simp: validateNumber_def Let_def s'_def s1_def split: if_splits)
      have "ndigits s1 \<le> length s1" by (simp add: ndigits_def length_takeWhile_le)
      show ?thesis
      proof (cases "ndigits s1 \<ge> length s1")
        case True
        with a ne i lt \<open>s' ! ndigits s' = CHR ''.''\<close> i1 have "t = []"
          by (auto simp: validateNumber_def Let_def s'_def s1_def split: if_splits)
        with ne show ?thesis by simp
      next
        case False
        then have lt1: "ndigits s1 < length s1" by simp
        with a ne i lt \<open>s' ! ndigits s' = CHR ''.''\<close> i1
        have "validateNumber_exponent s1 (ndigits s1) = Inr t"
          by (auto simp: validateNumber_def Let_def s'_def s1_def split: if_splits)
        from validateNumber_exponent_tail [OF this i1 lt1] l1 le show ?thesis by simp
      qed
    qed
  qed
qed

lemma validateString_loop_tail: "validateString_loop rs tail = Inr (r, t) \<Longrightarrow> t = tail"
proof (induction rs tail rule: validateString_loop.induct)
  case (1 rs tail)
  show ?case
  proof (cases "IndexByte rs backslash")
    case None
    with "1.prems" show ?thesis by (simp add: validateString_loop.simps)
  next
    case (Some n0)
    note eq = "1.prems" [unfolded validateString_loop.simps [of rs tail], unfolded Some Let_def,
        simplified]
    from eq have lt: "\<not> length rs \<le> n0 + 1" by (auto split: if_splits)
    show ?thesis
    proof (cases "is_simple_escape (rs ! (n0 + 1))")
      case True
      with eq lt have "validateString_loop (drop (n0 + 1 + 1) rs) tail = Inr (r, t)" by simp
      from "1.IH"(1) [OF Some refl _ refl refl True this] lt show ?thesis by simp
    next
      case False
      with eq lt have u: "rs ! (n0 + 1) = CHR ''u''" and l4: "\<not> length (drop (n0 + 1 + 1) rs) < 4"
        by (auto split: if_splits)
      from eq lt False u l4 obtain x where
        x: "ParseUint_hex (take 4 (drop (n0 + 1 + 1) rs)) 0 = Some x"
        by (auto split: option.splits if_splits)
      with eq lt False u l4
      have "validateString_loop (drop 4 (drop (n0 + 1 + 1) rs)) tail = Inr (r, t)"
        by (auto split: if_splits)
      from "1.IH"(2) [OF Some refl _ refl refl False u l4 x this] lt show ?thesis by simp
    qed
  qed
qed

lemma validateString_tail:
  assumes "validateString s = Inr (r, t)"
  shows "length t < length s"
proof (cases "case IndexByte s dquote of None \<Rightarrow> None
         | Some n \<Rightarrow> if IndexByte (take n s) backslash = None then Some n else None")
  case (Some n)
  then have "IndexByte s dquote = Some n" by (auto split: option.splits if_splits)
  then have "n < length s" by (auto dest: IndexByte_SomeD)
  moreover from assms Some have "t = drop (n + 1) s" by (simp add: validateString_def)
  ultimately show ?thesis by simp
next
  case None
  with assms obtain rs tail where p: "parseRawString s = Inr (rs, tail)"
    and l: "validateString_loop rs tail = Inr (r, t)"
    by (auto simp: validateString_def split: sum.splits)
  from validateString_loop_tail [OF l] parseRawString_tail [OF p] show ?thesis by simp
qed

lemma validateKey_loop_tail:
  "validateKey_loop s cs i = Inr (r, t) \<Longrightarrow> i + length cs = length s \<Longrightarrow> length t < length s"
proof (induction cs arbitrary: i)
  case Nil
  then show ?case by simp
next
  case (Cons c cs)
  from Cons.prems(2) have i: "i < length s" and cs: "(i + 1) + length cs = length s" by simp_all
  show ?case
  proof (cases "c = dquote")
    case True
    with Cons.prems i show ?thesis by auto
  next
    case nq: False
    show ?thesis
    proof (cases "c = backslash")
      case True
      with nq Cons.prems(1) show ?thesis by (auto dest: validateString_tail)
    next
      case False
      with nq Cons.prems(1) have "validateKey_loop s cs (i + 1) = Inr (r, t)" by simp
      from Cons.IH [OF this cs] show ?thesis .
    qed
  qed
qed

lemma validateKey_tail: "validateKey s = Inr (r, t) \<Longrightarrow> length t < length s"
  unfolding validateKey_def by (erule validateKey_loop_tail) simp

type_synonym vresult = "(parse_error \<times> string) + string"

function validateValue :: "string \<Rightarrow> vresult"
  and validateArray :: "string \<Rightarrow> vresult"
  and validateArray_loop :: "string \<Rightarrow> vresult"
  and validateObject :: "string \<Rightarrow> vresult"
  and validateObject_loop :: "string \<Rightarrow> vresult"
where
  "validateValue s =
     (if length s = 0 then Inl (CannotParseEmptyString, s)
      else if hd s = CHR ''{'' then
        (case validateObject (tl s) of
           Inl (err, tail) \<Rightarrow> Inl (CannotParseObject err, tail)
         | Inr tail \<Rightarrow> Inr tail)
      else if hd s = CHR ''['' then
        (case validateArray (tl s) of
           Inl (err, tail) \<Rightarrow> Inl (CannotParseArray err, tail)
         | Inr tail \<Rightarrow> Inr tail)
      else if hd s = dquote then
        (case validateString (tl s) of
           Inl (err, tail) \<Rightarrow> Inl (CannotParseString err, tail)
         | Inr (sv, tail) \<Rightarrow>
             (case control_char sv of
                Some c \<Rightarrow> Inl (StringControlChar c, tail)
              | None \<Rightarrow> Inr tail))
      else if hd s = CHR ''t'' then
        (if length s < 4 \<or> take 4 s \<noteq> ''true'' then Inl (UnexpectedValueFound s, s)
         else Inr (drop 4 s))
      else if hd s = CHR ''f'' then
        (if length s < 5 \<or> take 5 s \<noteq> ''false'' then Inl (UnexpectedValueFound s, s)
         else Inr (drop 5 s))
      else if hd s = CHR ''n'' then
        (if length s < 4 \<or> take 4 s \<noteq> ''null'' then Inl (UnexpectedValueFound s, s)
         else Inr (drop 4 s))
      else
        (case validateNumber s of
           Inl (err, tail) \<Rightarrow> Inl (CannotParseNumber err, tail)
         | Inr tail \<Rightarrow> Inr tail))"
| "validateArray s0 =
     (let s = skipWS s0
      in if length s = 0 then Inl (MissingClosingBracket, s)
         else if hd s = CHR '']'' then Inr (tl s)
         else validateArray_loop s)"
| "validateArray_loop s0 =
     (case validateValue (skipWS s0) of
        Inl (err, s1) \<Rightarrow> Inl (CannotParseArrayValue err, s1)
      | Inr s1 \<Rightarrow>
          (let s = skipWS s1
           in if length s = 0 then Inl (UnexpectedEndOfArray, s)
              else if hd s = CHR '','' then validateArray_loop (tl s)
              else if hd s = CHR '']'' then Inr (tl s)
              else Inl (MissingCommaAfterArrayValue, s)))"
| "validateObject s0 =
     (let s = skipWS s0
      in if length s = 0 then Inl (MissingClosingBrace, s)
         else if hd s = CHR ''}'' then Inr (tl s)
         else validateObject_loop s)"
| "validateObject_loop s0 =
     (let s = skipWS s0
      in if length s = 0 \<or> hd s \<noteq> dquote then Inl (CannotFindOpeningQuoteForKey, s)
         else case validateKey (tl s) of
                Inl (err, s1) \<Rightarrow> Inl (CannotParseObjectKey err, s1)
              | Inr (key, s1) \<Rightarrow>
                  (case control_char key of
                     Some c \<Rightarrow> Inl (KeyControlChar c, s1)
                   | None \<Rightarrow>
                       (let s2 = skipWS s1
                        in if length s2 = 0 \<or> hd s2 \<noteq> CHR '':''
                           then Inl (MissingColonAfterObjectKey, s2)
                           else case validateValue (skipWS (tl s2)) of
                                  Inl (err, s3) \<Rightarrow> Inl (CannotParseObjectValue err, s3)
                                | Inr s3 \<Rightarrow>
                                    (let s4 = skipWS s3
                                     in if length s4 = 0 then Inl (UnexpectedEndOfObject, s4)
                                        else if hd s4 = CHR '','' then validateObject_loop (tl s4)
                                        else if hd s4 = CHR ''}'' then Inr (tl s4)
                                        else Inl (MissingCommaAfterObjectValue, s4)))))"
  by pat_completeness auto


lemma validate_tail_partial:
  "validateValue_validateArray_validateArray_loop_validateObject_validateObject_loop_dom (Inl (Inl s)) \<Longrightarrow> validateValue s = Inr t \<Longrightarrow> length t < length s"
  "validateValue_validateArray_validateArray_loop_validateObject_validateObject_loop_dom (Inl (Inr s)) \<Longrightarrow> validateArray s = Inr t \<Longrightarrow> length t < length s"
  "validateValue_validateArray_validateArray_loop_validateObject_validateObject_loop_dom (Inr (Inl s)) \<Longrightarrow> validateArray_loop s = Inr t \<Longrightarrow> length t < length s"
  "validateValue_validateArray_validateArray_loop_validateObject_validateObject_loop_dom (Inr (Inr (Inl s))) \<Longrightarrow> validateObject s = Inr t \<Longrightarrow> length t < length s"
  "validateValue_validateArray_validateArray_loop_validateObject_validateObject_loop_dom (Inr (Inr (Inr s))) \<Longrightarrow> validateObject_loop s = Inr t \<Longrightarrow> length t < length s"
proof (induct s and s and s and s and s arbitrary: t and t and t and t and t
    rule: validateValue_validateArray_validateArray_loop_validateObject_validateObject_loop.pinduct)
  case (1 s)
  from "1.prems" "1.hyps"(1) have ne: "s \<noteq> []"
    by (auto simp: validateValue.psimps split: if_splits)
  then have len: "length s \<noteq> 0" by simp
  have tl: "length (tl s) < length s" using ne by (cases s) simp_all
  note eq = "1.prems" [unfolded validateValue.psimps [OF "1.hyps"(1)]]
  show ?case
  proof (cases "hd s = CHR ''{''")
    case True
    with eq ne have "validateObject (tl s) = Inr t" by (auto split: sum.splits)
    from "1.hyps"(2) [OF len True this] tl show ?thesis by simp
  next
    case no: False
    show ?thesis
    proof (cases "hd s = CHR ''[''")
      case True
      with eq ne no have "validateArray (tl s) = Inr t" by (auto split: sum.splits)
      from "1.hyps"(3) [OF len no True this] tl show ?thesis by simp
    next
      case na: False
      show ?thesis
      proof (cases "hd s = dquote")
        case True
        with eq ne no na obtain sv where "validateString (tl s) = Inr (sv, t)"
          by (auto split: sum.splits option.splits)
        from validateString_tail [OF this] tl show ?thesis by simp
      next
        case ns: False
        from eq ne no na ns show ?thesis
          by (auto split: sum.splits if_splits dest: validateNumber_tail)
      qed
    qed
  qed
next
  case (2 s0)
  note eq = "2.prems" [unfolded validateArray.psimps [OF "2.hyps"(1)] Let_def]
  have le: "length (skipWS s0) \<le> length s0" by (rule skipWS_length)
  show ?case
  proof (cases "length (skipWS s0) = 0")
    case True
    with eq show ?thesis by simp
  next
    case ne: False
    then have tl: "length (tl (skipWS s0)) < length (skipWS s0)" by (cases "skipWS s0") simp_all
    show ?thesis
    proof (cases "hd (skipWS s0) = CHR '']''")
      case True
      with eq ne have "t = tl (skipWS s0)" by simp
      with tl le show ?thesis by simp
    next
      case False
      with eq ne have "validateArray_loop (skipWS s0) = Inr t" by simp
      from "2.hyps"(2) [OF refl ne False this] le show ?thesis by simp
    qed
  qed
next
  case (3 s0)
  note eq = "3.prems" [unfolded validateArray_loop.psimps [OF "3.hyps"(1)] Let_def]
  have le: "length (skipWS s0) \<le> length s0" by (rule skipWS_length)
  from eq obtain s1 where pv: "validateValue (skipWS s0) = Inr s1"
    by (auto split: sum.splits)
  from "3.hyps"(2) [OF pv] have s1: "length s1 < length (skipWS s0)" .
  have le1: "length (skipWS s1) \<le> length s1" by (rule skipWS_length)
  from eq pv have ne: "length (skipWS s1) \<noteq> 0" by (auto split: if_splits)
  then have tl: "length (tl (skipWS s1)) < length (skipWS s1)" by (cases "skipWS s1") simp_all
  show ?case
  proof (cases "hd (skipWS s1) = CHR '',''")
    case True
    with eq pv ne have "validateArray_loop (tl (skipWS s1)) = Inr t" by simp
    from "3.hyps"(3) [OF pv refl ne True this] tl le1 s1 le show ?thesis by simp
  next
    case False
    with eq pv ne have "t = tl (skipWS s1)" by (auto split: if_splits)
    with tl le1 s1 le show ?thesis by simp
  qed
next
  case (4 s0)
  note eq = "4.prems" [unfolded validateObject.psimps [OF "4.hyps"(1)] Let_def]
  have le: "length (skipWS s0) \<le> length s0" by (rule skipWS_length)
  show ?case
  proof (cases "length (skipWS s0) = 0")
    case True
    with eq show ?thesis by simp
  next
    case ne: False
    then have tl: "length (tl (skipWS s0)) < length (skipWS s0)" by (cases "skipWS s0") simp_all
    show ?thesis
    proof (cases "hd (skipWS s0) = CHR ''}''")
      case True
      with eq ne have "t = tl (skipWS s0)" by simp
      with tl le show ?thesis by simp
    next
      case False
      with eq ne have "validateObject_loop (skipWS s0) = Inr t" by simp
      from "4.hyps"(2) [OF refl ne False this] le show ?thesis by simp
    qed
  qed
next
  case (5 s0)
  note eq = "5.prems" [unfolded validateObject_loop.psimps [OF "5.hyps"(1)] Let_def]
  let ?s = "skipWS s0"
  have le: "length ?s \<le> length s0" by (rule skipWS_length)
  from eq have c1: "\<not> (length ?s = 0 \<or> hd ?s \<noteq> dquote)" by (auto split: if_splits)
  then have tl: "length (tl ?s) < length ?s" by (cases ?s) simp_all
  from eq c1 obtain key s1 where pk: "validateKey (tl ?s) = Inr (key, s1)"
    by (auto split: sum.splits)
  from validateKey_tail [OF pk] have s1: "length s1 < length (tl ?s)" .
  from eq c1 pk have cc: "control_char key = None" by (auto split: option.splits)
  let ?s2 = "skipWS s1"
  have le2: "length ?s2 \<le> length s1" by (rule skipWS_length)
  from eq c1 pk cc have c2: "\<not> (length ?s2 = 0 \<or> hd ?s2 \<noteq> CHR '':'')"
    by (auto split: if_splits)
  then have tl2: "length (tl ?s2) < length ?s2" by (cases ?s2) simp_all
  have le3: "length (skipWS (tl ?s2)) \<le> length (tl ?s2)" by (rule skipWS_length)
  from eq c1 pk cc c2 obtain s3 where pv: "validateValue (skipWS (tl ?s2)) = Inr s3"
    by (auto split: sum.splits)
  from "5.hyps"(2) [OF refl c1 pk refl cc refl c2 pv]
  have s3: "length s3 < length (skipWS (tl ?s2))" .
  let ?s4 = "skipWS s3"
  have le4: "length ?s4 \<le> length s3" by (rule skipWS_length)
  from eq c1 pk cc c2 pv have ne4: "length ?s4 \<noteq> 0" by (auto split: if_splits)
  then have tl4: "length (tl ?s4) < length ?s4" by (cases ?s4) simp_all
  show ?case
  proof (cases "hd ?s4 = CHR '',''")
    case True
    with eq c1 pk cc c2 pv ne4 have "validateObject_loop (tl ?s4) = Inr t" by simp
    from "5.hyps"(3) [OF refl c1 pk refl cc refl c2 pv refl ne4 True this]
    have "length t < length (tl ?s4)" .
    with tl4 le4 s3 le3 tl2 le2 s1 tl le show ?thesis by simp
  next
    case False
    with eq c1 pk cc c2 pv ne4 have "t = tl ?s4" by (auto split: if_splits)
    with tl4 le4 s3 le3 tl2 le2 s1 tl le show ?thesis by simp
  qed
qed

termination validateValue
proof (relation "measure (\<lambda>x. case x of
      Inl (Inl s) \<Rightarrow> 4 * length s
    | Inl (Inr s) \<Rightarrow> 4 * length s + 2
    | Inr (Inl s) \<Rightarrow> 4 * length s + 1
    | Inr (Inr (Inl s)) \<Rightarrow> 4 * length s + 2
    | Inr (Inr (Inr s)) \<Rightarrow> 4 * length s + 1)", goal_cases)
  case 1
  show ?case by simp
next
  case (2 s)
  then show ?case by (cases s) simp_all
next
  case (3 s)
  then show ?case by (cases s) simp_all
next
  case (4 s0 x)
  then show ?case using skipWS_length [of s0] by simp
next
  case (5 s0)
  then show ?case using skipWS_length [of s0] by simp
next
  case (6 s0 b x)
  from 6 have pv: "validateValue (skipWS s0) = Inr b" by simp
  from 6 have dom: "validateValue_validateArray_validateArray_loop_validateObject_validateObject_loop_dom (Inl (Inl (skipWS s0)))" by simp
  from validate_tail_partial(1) [OF dom pv] have "length b < length (skipWS s0)" .
  moreover from 6 have "length x \<le> length b" by (simp add: skipWS_length)
  moreover have "length (skipWS s0) \<le> length s0" by (rule skipWS_length)
  moreover from 6 have "length (tl x) < length x" by (cases x) simp_all
  ultimately show ?case by simp
next
  case (7 s0 x)
  then show ?case using skipWS_length [of s0] by simp
next
  case (8 s0 x b xa y xb)
  from 8 have ne: "x \<noteq> []" "xb \<noteq> []" by auto
  from 8 have "validateKey (tl x) = Inr (xa, y)" by simp
  from validateKey_tail [OF this] have "length y < length (tl x)" .
  moreover from 8 have "length xb \<le> length y" by (simp add: skipWS_length)
  moreover have "length (skipWS (tl xb)) \<le> length (tl xb)" by (rule skipWS_length)
  moreover from 8 have "length x \<le> length s0" by (simp add: skipWS_length)
  moreover from ne have "length (tl x) < length x" by (cases x) simp_all
  moreover from ne have "length (tl xb) < length xb" by (cases xb) simp_all
  ultimately show ?case by simp
next
  case (9 s0 x b xa y xb ba xc)
  from 9 have ne: "x \<noteq> []" "xb \<noteq> []" "xc \<noteq> []" by auto
  from 9 have "validateKey (tl x) = Inr (xa, y)" by simp
  from validateKey_tail [OF this] have "length y < length (tl x)" .
  moreover from 9 have "length xb \<le> length y" by (simp add: skipWS_length)
  moreover have "length (skipWS (tl xb)) \<le> length (tl xb)" by (rule skipWS_length)
  moreover from 9 have "length x \<le> length s0" by (simp add: skipWS_length)
  moreover from ne have "length (tl x) < length x" by (cases x) simp_all
  moreover from ne have "length (tl xb) < length xb" by (cases xb) simp_all
  moreover from ne have "length (tl xc) < length xc" by (cases xc) simp_all
  moreover from 9 have pv: "validateValue (skipWS (tl xb)) = Inr ba" by simp
  from 9 have dom: "validateValue_validateArray_validateArray_loop_validateObject_validateObject_loop_dom (Inl (Inl (skipWS (tl xb))))" by simp
  from validate_tail_partial(1) [OF dom pv] have "length ba < length (skipWS (tl xb))" .
  moreover from 9 have "length xc \<le> length ba" by (simp add: skipWS_length)
  ultimately show ?case by simp
qed

declare validateValue.simps [simp del] validateArray.simps [simp del]
  validateArray_loop.simps [simp del] validateObject.simps [simp del]
  validateObject_loop.simps [simp del]

definition Validate :: "string \<Rightarrow> parse_error option" where
  "Validate s0 =
     (let s = skipWS s0
      in case validateValue s of
           Inl (err, tail) \<Rightarrow> Some (CannotParseJSON err tail)
         | Inr tail0 \<Rightarrow>
             (let tail = skipWS tail0
              in if length tail > 0 then Some (UnexpectedTail tail) else None))"

section \<open>Properties of the parser, the validator and the object operations\<close>

subsection \<open>Evaluation on concrete inputs\<close>

lemmas token_simps = parseRawString_def parseRawString_loop.simps parseRawKey_def
  parseRawNumber_def skipWS_def skipWSSlow_def is_ws_def Let_def byte_def dquote_def
  backslash_def is_number_char_def is_digit_def EqualFold_def to_lower_def

lemmas parse_simps = parseValue.simps parseArray.simps parseArray_loop.simps parseObject.simps
  parseObject_loop.simps Parser_Parse_def MaxDepth_def token_simps

lemmas unescape_simps = unescapeStringBestEffort_def unescape_loop.simps unescape_switch_def
  hex_val_def digit_val_def IsSurrogate_def DecodeRune_def string_of_rune_def utf8_3_def
  Let_def byte_def dquote_def backslash_def is_digit_def to_lower_def char_of_def bit_Suc_0_iff

lemmas validate_simps = validateValue.simps validateArray.simps validateArray_loop.simps
  validateObject.simps validateObject_loop.simps Validate_def validateString_def
  validateString_loop.simps validateKey_def validateNumber_def validateNumber_exponent_def
  control_char_def is_simple_escape_def ndigits_def hex_val_def digit_val_def token_simps

lemmas object_simps = Object_Get_def Object_Visit_def Object_Del_def Object_Set_def
  unescapeKeys_def escapeString_def hasSpecialChars_def

subsection \<open>Surrogates in the unescaper\<close>

text \<open>
  C5: the unescaper turns a surrogate pair into the UTF-8 bytes of the combined code point
  (the escapes \<open>uD834\<close>, \<open>uDD1E\<close> give the four bytes of U+1D11E) and stores an orphan
  surrogate unchanged. The first two equations are the pair and an orphan followed by
  plain text. The third is an orphan followed by another escape, \<open>uD834\<close> then \<open>u0041\<close>:
  the source passes both units to \<open>utf16.DecodeRune\<close> without testing that the second
  is a low surrogate, emits U+FFFD and skips the second escape, so neither the orphan's
  bytes nor the letter \<open>A\<close> are in the output.
\<close>

theorem unescape_surrogates:
  "unescapeStringBestEffort
     [backslash, CHR ''u'', CHR ''D'', CHR ''8'', CHR ''3'', CHR ''4'',
      backslash, CHR ''u'', CHR ''D'', CHR ''D'', CHR ''1'', CHR ''E'']
     = [CHR 0xF0, CHR 0x9D, CHR 0x84, CHR 0x9E] \<and>
   unescapeStringBestEffort
     [backslash, CHR ''u'', CHR ''D'', CHR ''8'', CHR ''3'', CHR ''4'', CHR ''x'']
     = [backslash, CHR ''u'', CHR ''D'', CHR ''8'', CHR ''3'', CHR ''4'', CHR ''x''] \<and>
   unescapeStringBestEffort
     [backslash, CHR ''u'', CHR ''D'', CHR ''8'', CHR ''3'', CHR ''4'',
      backslash, CHR ''u'', CHR ''0'', CHR ''0'', CHR ''4'', CHR ''1'']
     = [CHR 0xEF, CHR 0xBF, CHR 0xBD]"
  by (simp add: unescape_simps)

subsection \<open>Control characters\<close>

text \<open>
  C8: a byte below 0x20 inside a string literal is accepted by \<open>Parse\<close> and rejected by
  \<open>Validate\<close>. On its slow path \<open>validateString\<close> returns what is left of the string
  after its last escape sequence, and only that is scanned for control characters: the
  document made of a string that holds the byte 0x01 and then the escape of a newline
  passes \<open>Validate\<close>, as does an object with such a key, while the same byte with no
  escape after it is rejected.
\<close>

theorem Validate_misses_control_char_before_escape:
  "Parser_Parse [dquote, CHR 0x01, backslash, CHR ''n'', dquote]
     = Inr (VRawString [CHR 0x01, backslash, CHR ''n'']) \<and>
   Validate [dquote, CHR 0x01, backslash, CHR ''n'', dquote] = None \<and>
   Validate [dquote, CHR 0x01, dquote] = Some (CannotParseJSON (StringControlChar (CHR 0x01)) []) \<and>
   Validate [dquote, backslash, CHR ''n'', CHR 0x01, dquote]
     = Some (CannotParseJSON (StringControlChar (CHR 0x01)) []) \<and>
   Validate (''{'' @ [dquote, CHR 0x01, backslash, CHR ''n'', dquote] @ '':1}'') = None"
  by (simp add: validate_simps parse_simps)

subsection \<open>End of input and errors in the scanner\<close>

lemma skipWS_all_ws: "\<forall>c\<in>set s. is_ws c \<Longrightarrow> skipWS s = []"
proof (cases s)
  case Nil
  then show ?thesis by (simp add: skipWS_def)
next
  case (Cons c cs)
  assume a: "\<forall>c\<in>set s. is_ws c"
  with Cons have c: "is_ws c" and cs: "\<forall>x\<in>set cs. is_ws x" by simp_all
  from c have "\<not> byte c > 0x20" by (auto simp: is_ws_def byte_def)
  with Cons c cs show ?thesis by (simp add: skipWS_def skipWSSlow_def)
qed

lemma Scanner_Next_sticky: "sc_err sc \<noteq> None \<Longrightarrow> Scanner_Next sc = (False, sc)"
  by (simp add: Scanner_Next_def)

lemma Scanner_Next_False_err: "fst (Scanner_Next sc) = False \<Longrightarrow> sc_err (snd (Scanner_Next sc)) \<noteq> None"
  by (auto simp: Scanner_Next_def Let_def split: if_splits sum.splits)

lemma Scanner_Next_iterate:
  "sc_err sc \<noteq> None \<Longrightarrow> ((snd \<circ> Scanner_Next) ^^ n) sc = sc"
  by (induction n) (simp_all add: Scanner_Next_sticky)

lemma Scanner_Next_eof:
  assumes "sc_err sc = None" "\<forall>c\<in>set (sc_s sc). is_ws c"
  shows "Scanner_Next sc = (False, sc\<lparr>sc_s := [], sc_err := Some errEOF\<rparr>)"
  using assms skipWS_all_ws [OF assms(2)] by (simp add: Scanner_Next_def)

text \<open>
  C9: once only whitespace (or nothing) is left of the input, \<open>Next\<close> returns false
  and \<open>Error\<close> returns nil, the sentinel \<open>errEOF\<close> being reported as no error;
  whenever \<open>Next\<close> returns false an error is recorded, and from a scanner with a recorded
  error every later \<open>Next\<close> returns false and leaves the scanner as it is, without parsing.
\<close>

theorem scanner_eof_and_sticky_error:
  "(sc_err sc = None \<and> (\<forall>c\<in>set (sc_s sc). is_ws c) \<longrightarrow>
      fst (Scanner_Next sc) = False \<and> Scanner_Error (snd (Scanner_Next sc)) = None) \<and>
   (fst (Scanner_Next sc) = False \<longrightarrow> sc_err (snd (Scanner_Next sc)) \<noteq> None) \<and>
   (sc_err sc \<noteq> None \<longrightarrow>
      (\<forall>n. Scanner_Next (((snd \<circ> Scanner_Next) ^^ n) sc) = (False, sc)))"
proof (intro conjI impI allI)
  assume a: "sc_err sc = None \<and> (\<forall>c\<in>set (sc_s sc). is_ws c)"
  then have e: "Scanner_Next sc = (False, sc\<lparr>sc_s := [], sc_err := Some errEOF\<rparr>)"
    by (simp add: Scanner_Next_eof)
  show "fst (Scanner_Next sc) = False" by (simp add: e)
  show "Scanner_Error (snd (Scanner_Next sc)) = None" by (simp add: e Scanner_Error_def)
next
  assume "fst (Scanner_Next sc) = False"
  then show "sc_err (snd (Scanner_Next sc)) \<noteq> None" by (rule Scanner_Next_False_err)
next
  fix n
  assume "sc_err sc \<noteq> None"
  then show "Scanner_Next (((snd \<circ> Scanner_Next) ^^ n) sc) = (False, sc)"
    by (simp add: Scanner_Next_iterate Scanner_Next_sticky)
qed

theorem scanner_eof_and_sticky_error_witness:
  "Scanner_Next (Scanner_Init ''1 '') =
     (True, \<lparr>sc_s = '' '', sc_err = None, sc_v = Some (VNumber ''1'')\<rparr>) \<and>
   fst (Scanner_Next (snd (Scanner_Next (Scanner_Init ''1 '')))) = False \<and>
   Scanner_Error (snd (Scanner_Next (snd (Scanner_Next (Scanner_Init ''1 ''))))) = None \<and>
   Scanner_Next (Scanner_Init ''x'') =
     (False, \<lparr>sc_s = ''x'', sc_err = Some (CannotParseNumber (UnexpectedChar ''x'')), sc_v = None\<rparr>) \<and>
   Scanner_Next (((snd \<circ> Scanner_Next) ^^ 2) (snd (Scanner_Next (Scanner_Init ''x'')))) =
     (False, snd (Scanner_Next (Scanner_Init ''x'')))"
proof -
  have a: "Scanner_Next (Scanner_Init ''1 '') =
     (True, \<lparr>sc_s = '' '', sc_err = None, sc_v = Some (VNumber ''1'')\<rparr>)"
    by (simp add: Scanner_Next_def Scanner_Init_def parse_simps)
  have b: "Scanner_Next (Scanner_Init ''x'') =
     (False, \<lparr>sc_s = ''x'', sc_err = Some (CannotParseNumber (UnexpectedChar ''x'')), sc_v = None\<rparr>)"
    by (simp add: Scanner_Next_def Scanner_Init_def parse_simps)
  from scanner_eof_and_sticky_error [of "snd (Scanner_Next (Scanner_Init ''1 ''))"]
    scanner_eof_and_sticky_error [of "snd (Scanner_Next (Scanner_Init ''x''))"]
  show ?thesis unfolding a b by (simp add: is_ws_def)
qed

subsection \<open>Object lookup\<close>

lemma find_key_first:
  "find_key ents key = Some val \<longleftrightarrow>
     (\<exists>i<length ents. kv_k (ents ! i) = key \<and> kv_v (ents ! i) = val \<and>
        (\<forall>j<i. kv_k (ents ! j) \<noteq> key))"
proof (induction ents)
  case Nil
  then show ?case by simp
next
  case (Cons e rest)
  show ?case
  proof (cases "kv_k e = key")
    case True
    have "(\<exists>i<length (e # rest). kv_k ((e # rest) ! i) = key \<and> kv_v ((e # rest) ! i) = val \<and>
        (\<forall>j<i. kv_k ((e # rest) ! j) \<noteq> key)) \<longleftrightarrow> kv_v e = val"
    proof
      assume "\<exists>i<length (e # rest). kv_k ((e # rest) ! i) = key \<and> kv_v ((e # rest) ! i) = val \<and>
        (\<forall>j<i. kv_k ((e # rest) ! j) \<noteq> key)"
      then obtain i where i: "kv_v ((e # rest) ! i) = val" "\<forall>j<i. kv_k ((e # rest) ! j) \<noteq> key"
        by blast
      from i(2) True have "i = 0" by (cases i) auto
      with i(1) show "kv_v e = val" by simp
    next
      assume "kv_v e = val"
      with True show "\<exists>i<length (e # rest). kv_k ((e # rest) ! i) = key \<and>
          kv_v ((e # rest) ! i) = val \<and> (\<forall>j<i. kv_k ((e # rest) ! j) \<noteq> key)"
        by (intro exI [of _ 0]) simp
    qed
    with True show ?thesis by auto
  next
    case False
    have "(\<exists>i<length (e # rest). kv_k ((e # rest) ! i) = key \<and> kv_v ((e # rest) ! i) = val \<and>
        (\<forall>j<i. kv_k ((e # rest) ! j) \<noteq> key)) \<longleftrightarrow>
      (\<exists>i<length rest. kv_k (rest ! i) = key \<and> kv_v (rest ! i) = val \<and>
        (\<forall>j<i. kv_k (rest ! j) \<noteq> key))" (is "?L \<longleftrightarrow> ?R")
    proof
      assume ?L
      then obtain i where i: "i < length (e # rest)" "kv_k ((e # rest) ! i) = key"
        "kv_v ((e # rest) ! i) = val" "\<forall>j<i. kv_k ((e # rest) ! j) \<noteq> key" by blast
      from i(2) False obtain i' where i': "i = Suc i'" by (cases i) auto
      from i(4) i' have "\<forall>j<i'. kv_k (rest ! j) \<noteq> key" by auto
      with i i' show ?R by (intro exI [of _ i']) simp
    next
      assume ?R
      then obtain i where i: "i < length rest" "kv_k (rest ! i) = key" "kv_v (rest ! i) = val"
        "\<forall>j<i. kv_k (rest ! j) \<noteq> key" by blast
      have "\<forall>j<Suc i. kv_k ((e # rest) ! j) \<noteq> key"
      proof (intro allI impI)
        fix j assume "j < Suc i"
        with i(4) False show "kv_k ((e # rest) ! j) \<noteq> key" by (cases j) auto
      qed
      with i show ?L by (intro exI [of _ "Suc i"]) simp
    qed
    with False Cons.IH show ?thesis by simp
  qed
qed

lemma find_key_None: "find_key ents key = None \<longleftrightarrow> (\<forall>e\<in>set ents. kv_k e \<noteq> key)"
  by (induction ents) auto

lemma unescape_no_backslash:
  "IndexByte s backslash = None \<Longrightarrow> unescapeStringBestEffort s = s"
  by (simp add: unescapeStringBestEffort_def)

lemma unescapeKeys_flag: "keysUnescaped (unescapeKeys ob)"
  by (simp add: unescapeKeys_def)

lemma unescapeKeys_idem: "unescapeKeys (unescapeKeys ob) = unescapeKeys ob"
  by (simp add: unescapeKeys_def)

lemma unescapeKeys_values: "map kv_v (kvs (unescapeKeys ob)) = map kv_v (kvs ob)"
  by (simp add: unescapeKeys_def comp_def)

lemma unescapeKeys_plain:
  assumes "\<forall>e\<in>set (kvs ob). IndexByte (kv_k e) backslash = None"
  shows "kvs (unescapeKeys ob) = kvs ob"
proof -
  have "map (\<lambda>e. KV (unescapeStringBestEffort (kv_k e)) (kv_v e)) (kvs ob) = map (\<lambda>e. e) (kvs ob)"
    using assms by (intro map_cong refl) (simp add: unescape_no_backslash)
  then show ?thesis by (simp add: unescapeKeys_def)
qed

lemma Object_Get_fast:
  assumes "\<not> keysUnescaped ob" "IndexByte key backslash = None" "find_key (kvs ob) key = Some val"
  shows "Object_Get ob key = (Some val, ob)"
  using assms by (simp add: Object_Get_def)

lemma Object_Get_slow:
  assumes "\<not> (\<not> keysUnescaped ob \<and> IndexByte key backslash = None \<and> find_key (kvs ob) key \<noteq> None)"
  shows "Object_Get ob key = (find_key (kvs (unescapeKeys ob)) key, unescapeKeys ob)"
  using assms by (auto simp: Object_Get_def Let_def)

lemma Object_Visit_collect:
  "Object_Visit (\<lambda>st key val. st @ [(key, val)]) [] ob =
     (map (\<lambda>e. (kv_k e, kv_v e)) (kvs (unescapeKeys ob)), unescapeKeys ob)"
proof -
  have "foldl (\<lambda>st e. st @ [(kv_k e, kv_v e)]) acc ents = acc @ map (\<lambda>e. (kv_k e, kv_v e)) ents"
    for acc :: "(string \<times> Value) list" and ents
    by (induction ents arbitrary: acc) simp_all
  then show ?thesis by (simp add: Object_Visit_def Let_def)
qed

lemma Object_Get_plain_keys:
  assumes "\<forall>e\<in>set (kvs ob). IndexByte (kv_k e) backslash = None"
  shows "fst (Object_Get ob key) = find_key (kvs ob) key"
  using unescapeKeys_plain [OF assms]
  by (auto simp: Object_Get_def Let_def split: option.splits)

text \<open>
  C7 (as stated): \<open>Get\<close> returns the value of the first entry, in insertion order, whose
  key matches. In the object of two entries parsed below, the first key is the escape
  \<open>u0061\<close> of the letter \<open>a\<close> and the second is \<open>a\<close> itself, so both keys are \<open>a\<close>.
  The fast path compares the raw keys, and \<open>Get("a")\<close> returns 2, the second entry. After
  a lookup that misses, the keys are unescaped and \<open>Get("a")\<close> returns 1; and the raw
  key of the first entry, given as search key, finds nothing.
\<close>

theorem Object_Get_misses_escaped_first_key:
  "Parser_Parse (''{'' @ [dquote, backslash] @ ''u0061'' @ [dquote] @ '':1,''
                  @ [dquote] @ ''a'' @ [dquote] @ '':2}'')
     = Inr (VObject (Object [KV (backslash # ''u0061'') (VNumber ''1''),
                             KV ''a'' (VNumber ''2'')] False)) \<and>
   kvs (unescapeKeys (Object [KV (backslash # ''u0061'') (VNumber ''1''),
                              KV ''a'' (VNumber ''2'')] False))
     = [KV ''a'' (VNumber ''1''), KV ''a'' (VNumber ''2'')] \<and>
   fst (Object_Get (Object [KV (backslash # ''u0061'') (VNumber ''1''),
                            KV ''a'' (VNumber ''2'')] False) ''a'') = Some (VNumber ''2'') \<and>
   fst (Object_Get (snd (Object_Get (Object [KV (backslash # ''u0061'') (VNumber ''1''),
                                             KV ''a'' (VNumber ''2'')] False) ''b'')) ''a'')
     = Some (VNumber ''1'') \<and>
   fst (Object_Get (Object [KV (backslash # ''u0061'') (VNumber ''1''),
                            KV ''a'' (VNumber ''2'')] False) (backslash # ''u0061'')) = None"
  by (simp add: parse_simps object_simps unescape_simps)

text \<open>
  C7 (amended): \<open>Get\<close> returns the value of the first entry, in insertion order, whose
  stored key equals the search key: the stored keys are the raw keys when the fast path
  finds the search key among them (keys not yet unescaped, no backslash in the search
  key), and the unescaped keys otherwise. When no key of the object has a backslash, that
  is the first entry whose key equals the search key. \<open>Visit\<close> calls its callback on every
  entry, duplicates included, in the parsed order, with the unescaped keys.
\<close>

theorem Object_Get_first_stored_match:
  "fst (Object_Get ob key) =
     (if \<not> keysUnescaped ob \<and> IndexByte key backslash = None \<and> find_key (kvs ob) key \<noteq> None
      then find_key (kvs ob) key else find_key (kvs (unescapeKeys ob)) key) \<and>
   (find_key ents key = Some val \<longleftrightarrow>
      (\<exists>i<length ents. kv_k (ents ! i) = key \<and> kv_v (ents ! i) = val \<and>
         (\<forall>j<i. kv_k (ents ! j) \<noteq> key))) \<and>
   ((\<forall>e\<in>set (kvs ob). IndexByte (kv_k e) backslash = None) \<longrightarrow>
      fst (Object_Get ob key) = find_key (kvs ob) key) \<and>
   Object_Visit (\<lambda>st k v. st @ [(k, v)]) [] ob =
     (map (\<lambda>e. (kv_k e, kv_v e)) (kvs (unescapeKeys ob)), unescapeKeys ob) \<and>
   map kv_v (kvs (unescapeKeys ob)) = map kv_v (kvs ob)"
proof (intro conjI impI)
  show "fst (Object_Get ob key) =
     (if \<not> keysUnescaped ob \<and> IndexByte key backslash = None \<and> find_key (kvs ob) key \<noteq> None
      then find_key (kvs ob) key else find_key (kvs (unescapeKeys ob)) key)"
    by (auto simp: Object_Get_def Let_def split: option.splits)
  show "find_key ents key = Some val \<longleftrightarrow>
      (\<exists>i<length ents. kv_k (ents ! i) = key \<and> kv_v (ents ! i) = val \<and>
         (\<forall>j<i. kv_k (ents ! j) \<noteq> key))"
    by (rule find_key_first)
  show "Object_Visit (\<lambda>st k v. st @ [(k, v)]) [] ob =
     (map (\<lambda>e. (kv_k e, kv_v e)) (kvs (unescapeKeys ob)), unescapeKeys ob)"
    by (rule Object_Visit_collect)
  show "map kv_v (kvs (unescapeKeys ob)) = map kv_v (kvs ob)"
    by (rule unescapeKeys_values)
next
  assume "\<forall>e\<in>set (kvs ob). IndexByte (kv_k e) backslash = None"
  then show "fst (Object_Get ob key) = find_key (kvs ob) key"
    by (rule Object_Get_plain_keys)
qed

theorem Object_Get_first_stored_match_witness:
  "Parser_Parse (''{'' @ [dquote] @ ''a'' @ [dquote] @ '':1,'' @ [dquote] @ ''a'' @ [dquote] @ '':2}'')
     = Inr (VObject (Object [KV ''a'' (VNumber ''1''), KV ''a'' (VNumber ''2'')] False)) \<and>
   fst (Object_Get (Object [KV ''a'' (VNumber ''1''), KV ''a'' (VNumber ''2'')] False) ''a'')
     = Some (VNumber ''1'') \<and>
   fst (Object_Visit (\<lambda>st k v. st @ [(k, v)]) []
          (Object [KV ''a'' (VNumber ''1''), KV ''a'' (VNumber ''2'')] False))
     = [(''a'', VNumber ''1''), (''a'', VNumber ''2'')]"
proof -
  have p: "Parser_Parse (''{'' @ [dquote] @ ''a'' @ [dquote] @ '':1,'' @ [dquote] @ ''a'' @ [dquote] @ '':2}'')
     = Inr (VObject (Object [KV ''a'' (VNumber ''1''), KV ''a'' (VNumber ''2'')] False))"
    by (simp add: parse_simps)
  have b: "\<forall>e\<in>set (kvs (Object [KV ''a'' (VNumber ''1''), KV ''a'' (VNumber ''2'')] False)).
             IndexByte (kv_k e) backslash = None"
    by (simp add: backslash_def)
  have u: "kvs (unescapeKeys (Object [KV ''a'' (VNumber ''1''), KV ''a'' (VNumber ''2'')] False))
             = [KV ''a'' (VNumber ''1''), KV ''a'' (VNumber ''2'')]"
    by (simp add: unescapeKeys_def unescapeStringBestEffort_def backslash_def)
  from Object_Get_first_stored_match
         [of "Object [KV ''a'' (VNumber ''1''), KV ''a'' (VNumber ''2'')] False" "''a''"
             "[KV ''a'' (VNumber ''1''), KV ''a'' (VNumber ''2'')]" "VNumber ''1''"]
  show ?thesis using p b by (simp add: u)
qed

text \<open>
  C10: \<open>Get\<close> is not read-only. Whenever its fast path returns no value it leaves the
  object as \<open>unescapeKeys\<close> does: the flag is set and, unless it was set before, every
  key is replaced by its unescaped form. \<open>MarshalTo\<close> emits the keys raw when the flag is
  unset and through \<open>escapeString\<close> when it is set, so the object with the one key
  \<open>a\<close>, backslash, \<open>/b\<close> is serialised to other bytes after a lookup that misses.
  \<open>Visit\<close> and \<open>Set\<close> always, and \<open>Del\<close> when its fast path deletes nothing, rewrite
  the keys the same way.
\<close>

theorem Object_Get_not_read_only:
  "(\<not> (\<not> keysUnescaped ob \<and> IndexByte key backslash = None \<and> find_key (kvs ob) key \<noteq> None) \<longrightarrow>
      snd (Object_Get ob key) = unescapeKeys ob) \<and>
   (\<not> keysUnescaped ob \<and> IndexByte key backslash = None \<and> find_key (kvs ob) key \<noteq> None \<longrightarrow>
      snd (Object_Get ob key) = ob) \<and>
   keysUnescaped (unescapeKeys ob) \<and>
   (\<not> keysUnescaped ob \<longrightarrow>
      kvs (unescapeKeys ob) = map (\<lambda>e. KV (unescapeStringBestEffort (kv_k e)) (kv_v e)) (kvs ob)) \<and>
   (keysUnescaped ob \<longrightarrow> unescapeKeys ob = ob) \<and>
   Object_MarshalTo quote (Object [KV k v] False) dst =
     MarshalTo quote v (dst @ ''{'' @ [dquote] @ k @ [dquote] @ '':'') @ ''}'' \<and>
   Object_MarshalTo quote (Object [KV k v] True) dst =
     MarshalTo quote v (escapeString quote (dst @ ''{'') k @ '':'') @ ''}'' \<and>
   MarshalTo quote (VObject (Object [KV [CHR ''a'', backslash, CHR ''/'', CHR ''b''] (VNumber ''1'')] False)) []
     = ''{'' @ [dquote] @ ''a'' @ [backslash] @ ''/b'' @ [dquote] @ '':1}'' \<and>
   MarshalTo quote (VObject (snd (Object_Get
       (Object [KV [CHR ''a'', backslash, CHR ''/'', CHR ''b''] (VNumber ''1'')] False) ''x''))) []
     = ''{'' @ [dquote] @ ''a/b'' @ [dquote] @ '':1}'' \<and>
   snd (Object_Visit f st ob) = unescapeKeys ob \<and>
   Object_Set ob key value0 =
     Object (set_key (kvs (unescapeKeys ob)) key (case value0 of None \<Rightarrow> VNull | Some x \<Rightarrow> x)) True \<and>
   (\<not> (\<not> keysUnescaped ob \<and> IndexByte key backslash = None \<and> delete_key (kvs ob) key \<noteq> None) \<longrightarrow>
      Object_Del ob key =
        (case delete_key (kvs (unescapeKeys ob)) key of
           Some ents \<Rightarrow> Object ents True | None \<Rightarrow> unescapeKeys ob))"
proof (intro conjI impI)
  assume "\<not> (\<not> keysUnescaped ob \<and> IndexByte key backslash = None \<and> find_key (kvs ob) key \<noteq> None)"
  then show "snd (Object_Get ob key) = unescapeKeys ob"
    by (simp add: Object_Get_slow)
next
  assume "\<not> keysUnescaped ob \<and> IndexByte key backslash = None \<and> find_key (kvs ob) key \<noteq> None"
  then show "snd (Object_Get ob key) = ob"
    by (auto simp: Object_Get_def)
next
  show "keysUnescaped (unescapeKeys ob)" by (rule unescapeKeys_flag)
next
  assume "\<not> keysUnescaped ob"
  then show "kvs (unescapeKeys ob) = map (\<lambda>e. KV (unescapeStringBestEffort (kv_k e)) (kv_v e)) (kvs ob)"
    by (simp add: unescapeKeys_def)
next
  assume "keysUnescaped ob"
  then show "unescapeKeys ob = ob" by (simp add: unescapeKeys_def)
next
  show "Object_MarshalTo quote (Object [KV k v] False) dst =
     MarshalTo quote v (dst @ ''{'' @ [dquote] @ k @ [dquote] @ '':'') @ ''}''"
    by simp
next
  show "Object_MarshalTo quote (Object [KV k v] True) dst =
     MarshalTo quote v (escapeString quote (dst @ ''{'') k @ '':'') @ ''}''"
    by simp
next
  show "MarshalTo quote (VObject (Object [KV [CHR ''a'', backslash, CHR ''/'', CHR ''b''] (VNumber ''1'')] False)) []
     = ''{'' @ [dquote] @ ''a'' @ [backslash] @ ''/b'' @ [dquote] @ '':1}''"
    by simp
next
  show "MarshalTo quote (VObject (snd (Object_Get
       (Object [KV [CHR ''a'', backslash, CHR ''/'', CHR ''b''] (VNumber ''1'')] False) ''x''))) []
     = ''{'' @ [dquote] @ ''a/b'' @ [dquote] @ '':1}''"
    by (simp add: object_simps unescape_simps)
next
  show "snd (Object_Visit f st ob) = unescapeKeys ob"
    by (simp add: Object_Visit_def Let_def)
next
  show "Object_Set ob key value0 =
     Object (set_key (kvs (unescapeKeys ob)) key (case value0 of None \<Rightarrow> VNull | Some x \<Rightarrow> x)) True"
    by (simp add: Object_Set_def Let_def unescapeKeys_flag)
next
  assume "\<not> (\<not> keysUnescaped ob \<and> IndexByte key backslash = None \<and> delete_key (kvs ob) key \<noteq> None)"
  then show "Object_Del ob key =
        (case delete_key (kvs (unescapeKeys ob)) key of
           Some ents \<Rightarrow> Object ents True | None \<Rightarrow> unescapeKeys ob)"
    by (auto simp: Object_Del_def Let_def unescapeKeys_flag split: option.splits)
qed

theorem Object_Get_not_read_only_witness:
  "Parser_Parse (''{'' @ [dquote] @ ''a'' @ [backslash] @ ''/b'' @ [dquote] @ '':1}'')
     = Inr (VObject (Object [KV [CHR ''a'', backslash, CHR ''/'', CHR ''b''] (VNumber ''1'')] False)) \<and>
   snd (Object_Get (Object [KV [CHR ''a'', backslash, CHR ''/'', CHR ''b''] (VNumber ''1'')] False) ''x'')
     = Object [KV ''a/b'' (VNumber ''1'')] True \<and>
   Object_Del (Object [KV [CHR ''a'', backslash, CHR ''/'', CHR ''b''] (VNumber ''1'')] False) ''x''
     = Object [KV ''a/b'' (VNumber ''1'')] True \<and>
   snd (Object_Get (Object [KV ''a/b'' (VNumber ''1'')] True) ''x'')
     = Object [KV ''a/b'' (VNumber ''1'')] True"
proof -
  have p: "Parser_Parse (''{'' @ [dquote] @ ''a'' @ [backslash] @ ''/b'' @ [dquote] @ '':1}'')
     = Inr (VObject (Object [KV [CHR ''a'', backslash, CHR ''/'', CHR ''b''] (VNumber ''1'')] False))"
    by (simp add: parse_simps)
  have u: "unescapeKeys (Object [KV [CHR ''a'', backslash, CHR ''/'', CHR ''b''] (VNumber ''1'')] False)
             = Object [KV ''a/b'' (VNumber ''1'')] True"
    by (simp add: unescapeKeys_def unescape_simps)
  have u': "unescapeKeys (Object [KV ''a/b'' (VNumber ''1'')] True)
             = Object [KV ''a/b'' (VNumber ''1'')] True"
    by (simp add: unescapeKeys_def)
  note t = Object_Get_not_read_only
         [of "Object [KV [CHR ''a'', backslash, CHR ''/'', CHR ''b''] (VNumber ''1'')] False" "''x''"]
  note t' = Object_Get_not_read_only [of "Object [KV ''a/b'' (VNumber ''1'')] True" "''x''"]
  have g: "snd (Object_Get (Object [KV [CHR ''a'', backslash, CHR ''/'', CHR ''b''] (VNumber ''1'')] False) ''x'')
     = Object [KV ''a/b'' (VNumber ''1'')] True"
    using t [THEN conjunct1] by (simp add: u)
  have d: "Object_Del (Object [KV [CHR ''a'', backslash, CHR ''/'', CHR ''b''] (VNumber ''1'')] False) ''x''
     = Object [KV ''a/b'' (VNumber ''1'')] True"
    using t [THEN conjunct2, THEN conjunct2, THEN conjunct2, THEN conjunct2, THEN conjunct2,
             THEN conjunct2, THEN conjunct2, THEN conjunct2, THEN conjunct2, THEN conjunct2,
             THEN conjunct2]
    by (simp add: u)
  have g': "snd (Object_Get (Object [KV ''a/b'' (VNumber ''1'')] True) ''x'')
     = Object [KV ''a/b'' (VNumber ''1'')] True"
    using t' [THEN conjunct1] by (simp add: u')
  from p g d g' show ?thesis by (intro conjI)
qed

subsection \<open>Raw strings\<close>

lemma suffix_split:
  assumes s: "s = drop (length ss - length s) ss" and n: "n < length s" and q: "s ! n = c"
  shows "ss = take (length ss - length s + n) ss @ c # drop (n + 1) s"
proof -
  define k where "k = length ss - length s"
  from s have sk: "s = drop k ss" by (simp add: k_def)
  then have len: "length s = length ss - k" by simp
  with n have kn: "k + n < length ss" by arith
  have "s ! n = ss ! (k + n)" using sk kn by (metis nth_drop less_imp_le_nat le_add1 le_trans nat_less_le)
  with q have c: "ss ! (k + n) = c" by simp
  have "drop (n + 1) s = drop (Suc (k + n)) ss"
    by (subst sk) (simp add: add.commute)
  with id_take_nth_drop [OF kn] c show ?thesis by (simp add: k_def)
qed

lemma suffix_drop:
  assumes s: "s = drop (length ss - length s) ss" and n: "n < length s"
  shows "drop (n + 1) s = drop (length ss - length (drop (n + 1) s)) ss"
proof -
  define k where "k = length ss - length s"
  from s have sk: "s = drop k ss" by (simp add: k_def)
  then have len: "length s = length ss - k" by simp
  with n have kn: "k + n < length ss" by arith
  have d: "drop (n + 1) s = drop (Suc (k + n)) ss"
    by (subst sk) (simp add: add.commute)
  have "length (drop (n + 1) s) = length ss - Suc (k + n)"
    unfolding d by simp
  with kn have "length ss - length (drop (n + 1) s) = Suc (k + n)" by arith
  with d show ?thesis by simp
qed

lemma parseRawString_loop_split:
  "parseRawString_loop ss s n = Inr (r, t) \<Longrightarrow> s = drop (length ss - length s) ss \<Longrightarrow>
     n < length s \<Longrightarrow> s ! n = dquote \<Longrightarrow> ss = r @ dquote # t"
proof (induction ss s n rule: parseRawString_loop.induct)
  case (1 ss s n)
  note eq = "1.prems"(1) [unfolded parseRawString_loop.simps [of ss s n] Let_def]
  show ?case
  proof (cases "(n - back_run s (n - 1)) mod 2 = 0")
    case True
    with eq have "r = take (length ss - length s + n) ss" "t = drop (n + 1) s" by simp_all
    with suffix_split [OF "1.prems"(2,3,4)] show ?thesis by simp
  next
    case odd: False
    define s' where "s' = drop (n + 1) s"
    have s': "s' = drop (length ss - length s') ss"
      unfolding s'_def by (rule suffix_drop [OF "1.prems"(2,3)])
    from eq odd have eq2:
      "(case IndexByte s' dquote of
          None \<Rightarrow> Inl (MissingClosingQuote, [])
        | Some n' \<Rightarrow>
            if n' = 0 \<or> s' ! (n' - 1) \<noteq> backslash
            then Inr (take (length ss - length s' + n') ss, drop (n' + 1) s')
            else parseRawString_loop ss s' n') = Inr (r, t)"
      unfolding s'_def by (simp only: if_False)
    then obtain n' where ix: "IndexByte s' dquote = Some n'"
      by (cases "IndexByte s' dquote") simp_all
    from IndexByte_SomeD [OF ix] have n': "n' < length s'" and q': "s' ! n' = dquote" by simp_all
    note eq3 = eq2 [unfolded ix option.case]
    show ?thesis
    proof (cases "n' = 0 \<or> s' ! (n' - 1) \<noteq> backslash")
      case True
      with eq3 have "r = take (length ss - length s' + n') ss" "t = drop (n' + 1) s'"
        by (simp_all only: if_True sum.inject prod.inject)
      with suffix_split [OF s' n' q'] show ?thesis by simp
    next
      case False
      with eq3 have "parseRawString_loop ss s' n' = Inr (r, t)"
        by (simp only: if_False)
      from "1.IH" [OF refl odd s'_def ix False this s' n' q'] show ?thesis .
    qed
  qed
qed

lemma parseRawString_split: "parseRawString s = Inr (ss, tail) \<Longrightarrow> s = ss @ dquote # tail"
proof -
  assume a: "parseRawString s = Inr (ss, tail)"
  then obtain n where ix: "IndexByte s dquote = Some n"
    by (cases "IndexByte s dquote") (simp_all add: parseRawString_def)
  from IndexByte_SomeD [OF ix] have n: "n < length s" and q: "s ! n = dquote" by simp_all
  show ?thesis
  proof (cases "n = 0 \<or> s ! (n - 1) \<noteq> backslash")
    case True
    with a ix have "ss = take n s" "tail = drop (n + 1) s" by (simp_all add: parseRawString_def)
    with id_take_nth_drop [OF n] q show ?thesis by simp
  next
    case False
    with a ix have "parseRawString_loop s s n = Inr (ss, tail)" by (simp add: parseRawString_def)
    from parseRawString_loop_split [OF this _ n q] show ?thesis by simp
  qed
qed

lemma parse_container_kind:
  "True"
  "parseArray s d = Inr (v, t) \<Longrightarrow> \<exists>a. v = VArray a"
  "parseArray_loop s d a0 = Inr (v, t) \<Longrightarrow> \<exists>a. v = VArray a"
  "parseObject s d = Inr (v, t) \<Longrightarrow> \<exists>ob. v = VObject ob"
  "parseObject_loop s d kv0 = Inr (v, t) \<Longrightarrow> \<exists>ob. v = VObject ob"
proof (induct s d and s d and s d a0 and s d and s d kv0
    rule: parseValue_parseArray_parseArray_loop_parseObject_parseObject_loop.induct)
  case (1 s depth0)
  show ?case by simp
next
  case (2 s0 depth)
  note eq = "2.prems" [unfolded parseArray.simps [of s0 depth] Let_def]
  show ?case
  proof (cases "length (skipWS s0) = 0")
    case True
    with eq show ?thesis by simp
  next
    case ne: False
    show ?thesis
    proof (cases "hd (skipWS s0) = CHR '']''")
      case True
      with eq ne show ?thesis by auto
    next
      case False
      with eq ne have "parseArray_loop (skipWS s0) depth [] = Inr (v, t)" by simp
      from "2.hyps" [OF refl ne False this] show ?thesis .
    qed
  qed
next
  case (3 s0 depth a)
  note eq = "3.prems" [unfolded parseArray_loop.simps [of s0 depth a] Let_def]
  from eq obtain x s1 where pv: "parseValue (skipWS s0) depth = Inr (x, s1)"
    by (auto split: sum.splits)
  from eq pv have ne: "length (skipWS s1) \<noteq> 0" by (auto split: if_splits)
  show ?case
  proof (cases "hd (skipWS s1) = CHR '',''")
    case True
    with eq pv ne have "parseArray_loop (tl (skipWS s1)) depth (a @ [x]) = Inr (v, t)" by simp
    from "3.hyps"(2) [OF pv refl refl refl ne True this] show ?thesis .
  next
    case False
    with eq pv ne show ?thesis by (auto split: if_splits)
  qed
next
  case (4 s0 depth)
  note eq = "4.prems" [unfolded parseObject.simps [of s0 depth] Let_def]
  show ?case
  proof (cases "length (skipWS s0) = 0")
    case True
    with eq show ?thesis by simp
  next
    case ne: False
    show ?thesis
    proof (cases "hd (skipWS s0) = CHR ''}''")
      case True
      with eq ne show ?thesis by auto
    next
      case False
      with eq ne have "parseObject_loop (skipWS s0) depth [] = Inr (v, t)" by simp
      from "4.hyps" [OF refl ne False this] show ?thesis .
    qed
  qed
next
  case (5 s0 depth kvs0)
  note eq = "5.prems" [unfolded parseObject_loop.simps [of s0 depth kvs0] Let_def]
  let ?s = "skipWS s0"
  from eq have c1: "\<not> (length ?s = 0 \<or> hd ?s \<noteq> dquote)" by (auto split: if_splits)
  from eq c1 obtain k s1 where pk: "parseRawKey (tl ?s) = Inr (k, s1)"
    by (auto split: sum.splits)
  let ?s2 = "skipWS s1"
  from eq c1 pk have c2: "\<not> (length ?s2 = 0 \<or> hd ?s2 \<noteq> CHR '':'')" by (auto split: if_splits)
  from eq c1 pk c2 obtain x s3 where pv: "parseValue (skipWS (tl ?s2)) depth = Inr (x, s3)"
    by (auto split: sum.splits)
  let ?s4 = "skipWS s3"
  from eq c1 pk c2 pv have ne4: "length ?s4 \<noteq> 0" by (auto split: if_splits)
  show ?case
  proof (cases "hd ?s4 = CHR '',''")
    case True
    with eq c1 pk c2 pv ne4
    have "parseObject_loop (tl ?s4) depth (kvs0 @ [KV k x]) = Inr (v, t)" by simp
    from "5.hyps"(2) [OF refl c1 pk refl refl c2 pv refl refl refl ne4 True this]
    show ?thesis .
  next
    case False
    with eq c1 pk c2 pv ne4 show ?thesis by (auto split: if_splits)
  qed
qed

lemma parseValue_RawString:
  assumes "parseValue s d = Inr (VRawString ss, tail)"
  shows "s \<noteq> [] \<and> hd s = dquote \<and> parseRawString (tl s) = Inr (ss, tail)"
proof -
  note eq = assms [unfolded parseValue.simps [of s d] Let_def]
  from eq have ne: "s \<noteq> []" and dp: "\<not> d + 1 > MaxDepth" by (auto split: if_splits)
  have no: "hd s \<noteq> CHR ''{''"
  proof
    assume h: "hd s = CHR ''{''"
    with eq ne dp have "parseObject (tl s) (d + 1) = Inr (VRawString ss, tail)"
      by (auto split: sum.splits)
    from parse_container_kind(4) [OF this] show False by simp
  qed
  have na: "hd s \<noteq> CHR ''[''"
  proof
    assume h: "hd s = CHR ''[''"
    with eq ne dp no have "parseArray (tl s) (d + 1) = Inr (VRawString ss, tail)"
      by (auto split: sum.splits)
    from parse_container_kind(2) [OF this] show False by simp
  qed
  have q: "hd s = dquote"
  proof (rule ccontr)
    assume "hd s \<noteq> dquote"
    with eq ne dp no na show False
      by (auto split: sum.splits if_splits)
  qed
  with eq ne dp no na have "parseRawString (tl s) = Inr (ss, tail)"
    by (auto split: sum.splits)
  with ne q show ?thesis by simp
qed

text \<open>
  C6: \<open>MarshalTo\<close> emits a value still held as a raw string as a double quote, the raw
  bytes and a double quote, with no escaping; and whenever \<open>parseValue\<close> returns a raw
  string, the input it was given is that emitted form followed by the unparsed tail, so
  the string literal of the input and its re-emitted form are the same bytes. The same
  holds for a document that is a string, up to the whitespace around it.
\<close>

theorem raw_string_round_trip:
  "MarshalTo quote (VRawString ss) dst = dst @ [dquote] @ ss @ [dquote] \<and>
   (parseValue s depth = Inr (VRawString ss, tail) \<longrightarrow>
      s = MarshalTo quote (VRawString ss) [] @ tail) \<and>
   (Parser_Parse s = Inr (VRawString ss) \<longrightarrow>
      (\<exists>tail. skipWS s = MarshalTo quote (VRawString ss) [] @ tail \<and> skipWS tail = []))"
proof (intro conjI impI)
  show "MarshalTo quote (VRawString ss) dst = dst @ [dquote] @ ss @ [dquote]" by simp
next
  assume "parseValue s depth = Inr (VRawString ss, tail)"
  from parseValue_RawString [OF this]
  have ne: "s \<noteq> []" and q: "hd s = dquote" and r: "parseRawString (tl s) = Inr (ss, tail)"
    by simp_all
  from parseRawString_split [OF r] have "tl s = ss @ dquote # tail" .
  with ne q have "s = dquote # ss @ dquote # tail" by (cases s) simp_all
  then show "s = MarshalTo quote (VRawString ss) [] @ tail" by simp
next
  assume a: "Parser_Parse s = Inr (VRawString ss)"
  then obtain tail where p: "parseValue (skipWS s) 0 = Inr (VRawString ss, tail)"
    and t: "skipWS tail = []"
    by (auto simp: Parser_Parse_def Let_def split: sum.splits if_splits)
  from parseValue_RawString [OF p]
  have ne: "skipWS s \<noteq> []" and q: "hd (skipWS s) = dquote"
    and r: "parseRawString (tl (skipWS s)) = Inr (ss, tail)"
    by simp_all
  from parseRawString_split [OF r] have "tl (skipWS s) = ss @ dquote # tail" .
  with ne q have "skipWS s = dquote # ss @ dquote # tail" by (cases "skipWS s") simp_all
  with t show "\<exists>tail. skipWS s = MarshalTo quote (VRawString ss) [] @ tail \<and> skipWS tail = []"
    by (intro exI [of _ tail]) simp
qed

theorem raw_string_round_trip_witness:
  "Parser_Parse ([dquote, CHR ''a'', backslash, dquote, CHR ''b'', backslash, CHR ''n'', dquote] @ '' '')
     = Inr (VRawString [CHR ''a'', backslash, dquote, CHR ''b'', backslash, CHR ''n'']) \<and>
   (\<exists>tail. skipWS ([dquote, CHR ''a'', backslash, dquote, CHR ''b'', backslash, CHR ''n'', dquote] @ '' '')
        = [dquote, CHR ''a'', backslash, dquote, CHR ''b'', backslash, CHR ''n'', dquote] @ tail
      \<and> skipWS tail = [])"
proof -
  have p: "Parser_Parse ([dquote, CHR ''a'', backslash, dquote, CHR ''b'', backslash, CHR ''n'', dquote] @ '' '')
     = Inr (VRawString [CHR ''a'', backslash, dquote, CHR ''b'', backslash, CHR ''n''])"
    by (simp add: parse_simps)
  from raw_string_round_trip
         [of "\<lambda>dst s. dst" "[CHR ''a'', backslash, dquote, CHR ''b'', backslash, CHR ''n'']" "[]"
             "[dquote, CHR ''a'', backslash, dquote, CHR ''b'', backslash, CHR ''n'', dquote] @ '' ''"
             0 "'' ''"]
    p
  show ?thesis by simp
qed

subsection \<open>The depth limit\<close>

lemma scan_Nil [simp]: "scan st [] = st"
  by (simp add: scan_def)

lemma scan_Cons [simp]: "scan st (c # s) = scan (scan_step st c) s"
  by (simp add: scan_def)

lemma scan_append: "scan st (u @ w) = scan (scan st u) w"
  by (simp add: scan_def)

lemma scan_plain: "\<forall>c\<in>set u. plain c \<Longrightarrow> scan (Outside, cur, mx) u = (Outside, cur, mx)"
  by (induction u) (simp_all add: plain_def)

lemma scan_step_mono: "mx \<le> snd (snd (scan_step (q, cur, mx) c))"
  by (cases q) simp_all

lemma scan_mono: "snd (snd st) \<le> snd (snd (scan st u))"
proof (induction u arbitrary: st)
  case Nil
  show ?case by simp
next
  case (Cons c u)
  obtain q cur mx where st: "st = (q, cur, mx)" by (cases st)
  have "snd (snd st) \<le> snd (snd (scan_step st c))"
    unfolding st using scan_step_mono [of mx q cur c] by simp
  also have "\<dots> \<le> snd (snd (scan (scan_step st c) u))" by (rule Cons.IH)
  finally show ?case by simp
qed

text \<open>Inside a string literal.\<close>

lemma scan_in_string:
  "dquote \<notin> set x \<Longrightarrow> q \<noteq> Outside \<Longrightarrow> \<exists>q'. scan (q, cur, mx) x = (q', cur, mx) \<and> q' \<noteq> Outside"
proof (induction x arbitrary: q)
  case Nil
  then show ?case by simp
next
  case (Cons c x)
  from Cons.prems have c: "c \<noteq> dquote" and x: "dquote \<notin> set x" by auto
  have "\<exists>q1. scan_step (q, cur, mx) c = (q1, cur, mx) \<and> q1 \<noteq> Outside"
    using Cons.prems(2) c by (cases q) auto
  then obtain q1 where "scan_step (q, cur, mx) c = (q1, cur, mx)" "q1 \<noteq> Outside"
    by blast
  with Cons.IH [OF x, of q1] show ?case by simp
qed

lemma scan_step_Escaped: "scan_step st c = (Escaped, cur, mx) \<Longrightarrow> c = backslash"
proof -
  assume a: "scan_step st c = (Escaped, cur, mx)"
  obtain q cur' mx' where st: "st = (q, cur', mx')" by (cases st)
  from a show ?thesis unfolding st by (cases q) (auto split: if_splits)
qed

lemma scan_Escaped:
  assumes "scan st x = (Escaped, cur, mx)" "x \<noteq> []"
  shows "last x = backslash"
proof -
  from assms(2) obtain y c where x: "x = y @ [c]" by (cases x rule: rev_cases) auto
  with assms(1) have "scan_step (scan st y) c = (Escaped, cur, mx)" by (simp add: scan_append)
  then have "c = backslash" by (rule scan_step_Escaped)
  with x show ?thesis by simp
qed

lemma scan_no_quote_Inside:
  assumes "dquote \<notin> set x" "x = [] \<or> last x \<noteq> backslash"
  shows "scan (Inside, cur, mx) x = (Inside, cur, mx)"
proof (cases "x = []")
  case True
  then show ?thesis by simp
next
  case False
  from scan_in_string [OF assms(1), of Inside cur mx] obtain q'
    where q': "scan (Inside, cur, mx) x = (q', cur, mx)" "q' \<noteq> Outside" by auto
  have "q' \<noteq> Escaped"
  proof
    assume "q' = Escaped"
    with q'(1) scan_Escaped [of "(Inside, cur, mx)" x cur mx] False assms(2) show False by simp
  qed
  with q' show ?thesis by (cases q') simp_all
qed

lemma scan_backslashes:
  "scan (Inside, cur, mx) (replicate k backslash) = (if even k then Inside else Escaped, cur, mx)"
  "scan (Escaped, cur, mx) (replicate k backslash) = (if even k then Escaped else Inside, cur, mx)"
  by (induction k) auto

lemma back_run_le: "back_run s m \<le> m"
  by (induction m) simp_all

lemma back_run_all: "back_run s m \<le> j \<Longrightarrow> j < m \<Longrightarrow> s ! j = backslash"
proof (induction m)
  case 0
  then show ?case by simp
next
  case (Suc i)
  show ?case
  proof (cases "s ! i = backslash")
    case True
    with Suc.prems have le: "back_run s i \<le> j" by simp
    show ?thesis
    proof (cases "j = i")
      case True
      with \<open>s ! i = backslash\<close> show ?thesis by simp
    next
      case False
      with Suc.prems(2) have "j < i" by simp
      from Suc.IH [OF le this] show ?thesis .
    qed
  next
    case False
    with Suc.prems show ?thesis by simp
  qed
qed

lemma back_run_stop: "back_run s m = 0 \<or> s ! (back_run s m - 1) \<noteq> backslash"
  by (induction m) auto

lemma take_run:
  assumes "i \<le> n" "n \<le> length s" "\<forall>j. i \<le> j \<and> j < n \<longrightarrow> s ! j = c"
  shows "take n s = take i s @ replicate (n - i) c"
proof -
  have "take n s = take (i + (n - i)) s" using assms(1) by simp
  also have "\<dots> = take i s @ take (n - i) (drop i s)" by (rule take_add)
  also have "take (n - i) (drop i s) = replicate (n - i) c"
  proof (rule replicate_eqI)
    show "length (take (n - i) (drop i s)) = n - i" using assms(1,2) by simp
  next
    fix y assume "y \<in> set (take (n - i) (drop i s))"
    then obtain k where k: "k < length (take (n - i) (drop i s))"
      and y: "y = take (n - i) (drop i s) ! k"
      by (auto simp: in_set_conv_nth)
    from k assms(1,2) have kn: "k < n - i" by simp
    with y assms(2) have "y = s ! (i + k)" by simp
    with assms(3) kn show "y = c" by simp
  qed
  finally show ?thesis .
qed

lemma scan_before_quote:
  assumes pre: "scan (Inside, cur, mx) pre = (Inside, cur, mx)"
    and nq: "dquote \<notin> set (take n s)" and n: "n \<le> length s"
    and e: "n = 0 \<or> s ! (n - 1) \<noteq> backslash"
  shows "scan (Inside, cur, mx) (pre @ take n s) = (Inside, cur, mx)"
proof -
  have "take n s = [] \<or> last (take n s) \<noteq> backslash"
  proof (cases "n = 0")
    case True
    then show ?thesis by simp
  next
    case False
    with n have ne: "take n s \<noteq> []" by auto
    from n False have "last (take n s) = s ! (n - 1)"
      by (simp add: last_conv_nth [OF ne] min_def)
    with e False show ?thesis by simp
  qed
  from scan_no_quote_Inside [OF nq this] pre show ?thesis by (simp add: scan_append)
qed

lemma parseRawString_loop_scan:
  "parseRawString_loop ss s n = Inr (r, t) \<Longrightarrow> ss = pre @ s \<Longrightarrow> n < length s \<Longrightarrow>
     s ! n = dquote \<Longrightarrow> dquote \<notin> set (take n s) \<Longrightarrow> 0 < n \<Longrightarrow> s ! (n - 1) = backslash \<Longrightarrow>
     scan (Inside, cur, mx) pre = (Inside, cur, mx) \<Longrightarrow>
     scan (Inside, cur, mx) r = (Inside, cur, mx)"
proof (induction ss s n arbitrary: pre rule: parseRawString_loop.induct)
  case (1 ss s n)
  note eq = "1.prems"(1) [unfolded parseRawString_loop.simps [of ss s n] Let_def]
  note ss = "1.prems"(2) and n = "1.prems"(3) and q = "1.prems"(4) and nq = "1.prems"(5)
    and n0 = "1.prems"(6) and b = "1.prems"(7) and pre = "1.prems"(8)
  define i where "i = back_run s (n - 1)"
  have i_le: "i \<le> n - 1" unfolding i_def by (rule back_run_le)
  with n0 have i_n: "i \<le> n" by simp
  have run: "\<forall>j. i \<le> j \<and> j < n \<longrightarrow> s ! j = backslash"
  proof (intro allI impI)
    fix j assume j: "i \<le> j \<and> j < n"
    show "s ! j = backslash"
    proof (cases "j = n - 1")
      case True
      with b show ?thesis by simp
    next
      case False
      with j have "j < n - 1" by arith
      with j back_run_all [of s "n - 1" j] show ?thesis by (simp add: i_def)
    qed
  qed
  from n have n_le: "n \<le> length s" by simp
  have tk: "take n s = take i s @ replicate (n - i) backslash"
    by (rule take_run [OF i_n n_le run])
  have nqi: "dquote \<notin> set (take i s)" using nq tk by simp
  have stop: "i = 0 \<or> s ! (i - 1) \<noteq> backslash"
    unfolding i_def by (rule back_run_stop)
  from i_n n_le have i_len: "i \<le> length s" by simp
  have A: "scan (Inside, cur, mx) (pre @ take i s) = (Inside, cur, mx)"
    by (rule scan_before_quote [OF pre nqi i_len stop])
  have B: "scan (Inside, cur, mx) (pre @ take n s)
             = (if even (n - i) then Inside else Escaped, cur, mx)"
  proof -
    have "pre @ take n s = (pre @ take i s) @ replicate (n - i) backslash"
      by (simp add: tk)
    then show ?thesis by (simp only: scan_append [of _ "pre @ take i s"] A scan_backslashes)
  qed
  have len: "length ss - length s = length pre" using ss by simp
  show ?case
  proof (cases "(n - back_run s (n - 1)) mod 2 = 0")
    case True
    with eq have r: "r = take (length ss - length s + n) ss" by simp
    then have "r = pre @ take n s" by (simp add: len ss)
    moreover from True have "even (n - i)"
      unfolding i_def by (simp only: even_iff_mod_2_eq_zero)
    ultimately show ?thesis using B by simp
  next
    case odd: False
    then have oddi: "\<not> even (n - i)"
      unfolding i_def by (simp only: even_iff_mod_2_eq_zero not_False_eq_True)
    define s' where "s' = drop (n + 1) s"
    define pre' where "pre' = pre @ take (n + 1) s"
    have ss': "ss = pre' @ s'" by (simp add: pre'_def s'_def ss)
    have len': "length ss - length s' = length pre'" using ss' by simp
    have "take (n + 1) s = take n s @ [dquote]"
      using n q by (simp add: take_Suc_conv_app_nth)
    then have "pre' = (pre @ take n s) @ [dquote]" by (simp add: pre'_def)
    then have pre': "scan (Inside, cur, mx) pre' = (Inside, cur, mx)"
      using oddi by (simp only: scan_append [of _ "pre @ take n s"] B) simp
    from eq odd have eq2:
      "(case IndexByte s' dquote of
          None \<Rightarrow> Inl (MissingClosingQuote, [])
        | Some n' \<Rightarrow>
            if n' = 0 \<or> s' ! (n' - 1) \<noteq> backslash
            then Inr (take (length ss - length s' + n') ss, drop (n' + 1) s')
            else parseRawString_loop ss s' n') = Inr (r, t)"
      unfolding s'_def by (simp only: if_False)
    then obtain n' where ix: "IndexByte s' dquote = Some n'"
      by (cases "IndexByte s' dquote") simp_all
    from IndexByte_SomeD [OF ix] have n': "n' < length s'" and q': "s' ! n' = dquote"
      and nq': "dquote \<notin> set (take n' s')" by simp_all
    note eq3 = eq2 [unfolded ix option.case]
    show ?thesis
    proof (cases "n' = 0 \<or> s' ! (n' - 1) \<noteq> backslash")
      case True
      with eq3 have "r = take (length ss - length s' + n') ss"
        by (simp_all only: if_True sum.inject prod.inject)
      then have r: "r = pre' @ take n' s'" by (simp add: len' ss')
      from n' have "n' \<le> length s'" by simp
      from scan_before_quote [OF pre' nq' this True] r show ?thesis by simp
    next
      case False
      with eq3 have rec: "parseRawString_loop ss s' n' = Inr (r, t)"
        by (simp only: if_False)
      from False have "0 < n'" "s' ! (n' - 1) = backslash" by simp_all
      from "1.IH" [OF refl odd s'_def ix False rec ss' n' q' nq' this pre'] show ?thesis .
    qed
  qed
qed

lemma parseRawString_scan:
  assumes "parseRawString s = Inr (ss, tail)"
  shows "scan (Inside, cur, mx) ss = (Inside, cur, mx)"
proof -
  from assms obtain n where ix: "IndexByte s dquote = Some n"
    by (cases "IndexByte s dquote") (simp_all add: parseRawString_def)
  from IndexByte_SomeD [OF ix] have n: "n < length s" and q: "s ! n = dquote"
    and nq: "dquote \<notin> set (take n s)" by simp_all
  have e: "scan (Inside, cur, mx) [] = (Inside, cur, mx)" by simp
  show ?thesis
  proof (cases "n = 0 \<or> s ! (n - 1) \<noteq> backslash")
    case True
    with assms ix have "ss = take n s" by (simp add: parseRawString_def)
    moreover from n have "n \<le> length s" by simp
    from scan_before_quote [OF e nq this True] have "scan (Inside, cur, mx) (take n s) = (Inside, cur, mx)"
      by simp
    ultimately show ?thesis by simp
  next
    case False
    with assms ix have rec: "parseRawString_loop s s n = Inr (ss, tail)"
      by (simp add: parseRawString_def)
    from False have "0 < n" "s ! (n - 1) = backslash" by simp_all
    from parseRawString_loop_scan [OF rec _ n q nq this e] show ?thesis by simp
  qed
qed

text \<open>A string literal, from its opening quote to its closing quote.\<close>

lemma scan_string_literal:
  assumes "parseRawString s = Inr (ss, tail)"
  shows "s = ss @ dquote # tail"
    and "scan (Outside, cur, mx) (dquote # ss @ [dquote]) = (Outside, cur, mx)"
proof -
  show "s = ss @ dquote # tail" by (rule parseRawString_split [OF assms])
  have "scan (Outside, cur, mx) (dquote # ss @ [dquote])
          = scan (scan (Inside, cur, mx) ss) [dquote]"
    by (simp add: scan_append)
  also have "\<dots> = (Outside, cur, mx)"
    by (simp add: parseRawString_scan [OF assms] backslash_def dquote_def)
  finally show "scan (Outside, cur, mx) (dquote # ss @ [dquote]) = (Outside, cur, mx)" .
qed

lemma parseRawKey_loop_scan:
  "parseRawKey_loop s cs i = Inr (k, t) \<Longrightarrow> s = pre @ cs \<Longrightarrow> length pre = i \<Longrightarrow>
     dquote \<notin> set pre \<Longrightarrow> backslash \<notin> set pre \<Longrightarrow>
     s = k @ dquote # t \<and> scan (Inside, cur, mx) k = (Inside, cur, mx)"
proof (induction cs arbitrary: pre i)
  case Nil
  then show ?case by simp
next
  case (Cons c cs)
  show ?case
  proof (cases "c = dquote")
    case True
    with Cons.prems have k: "k = pre" and t: "t = cs" by simp_all
    have "pre = [] \<or> last pre \<noteq> backslash"
    proof (cases "pre = []")
      case True
      then show ?thesis by simp
    next
      case False
      then have "last pre \<in> set pre" by (rule last_in_set)
      with Cons.prems(5) show ?thesis by auto
    qed
    from scan_no_quote_Inside [OF Cons.prems(4) this] k t True Cons.prems(2)
    show ?thesis by simp
  next
    case nq: False
    show ?thesis
    proof (cases "c = backslash")
      case True
      with nq Cons.prems(1) have r: "parseRawString s = Inr (k, t)" by simp
      from parseRawString_split [OF r] parseRawString_scan [OF r] show ?thesis by simp
    next
      case False
      with nq Cons.prems(1) have rec: "parseRawKey_loop s cs (i + 1) = Inr (k, t)" by simp
      from Cons.prems(2) have s: "s = (pre @ [c]) @ cs" by simp
      from Cons.prems(3) have l: "length (pre @ [c]) = i + 1" by simp
      from Cons.prems(4) nq have a: "dquote \<notin> set (pre @ [c])" by simp
      from Cons.prems(5) False have b: "backslash \<notin> set (pre @ [c])" by simp
      from Cons.IH [OF rec s l a b] show ?thesis .
    qed
  qed
qed

lemma scan_key_literal:
  assumes "parseRawKey s = Inr (k, t)"
  shows "s = k @ dquote # t"
    and "scan (Outside, cur, mx) (dquote # k @ [dquote]) = (Outside, cur, mx)"
proof -
  from assms have "parseRawKey_loop s s 0 = Inr (k, t)" by (simp add: parseRawKey_def)
  from parseRawKey_loop_scan [OF this, of "[]" cur mx]
  have s: "s = k @ dquote # t" and i: "scan (Inside, cur, mx) k = (Inside, cur, mx)" by simp_all
  show "s = k @ dquote # t" by (rule s)
  have "scan (Outside, cur, mx) (dquote # k @ [dquote]) = scan (scan (Inside, cur, mx) k) [dquote]"
    by (simp add: scan_append)
  also have "\<dots> = (Outside, cur, mx)" by (simp add: i backslash_def dquote_def)
  finally show "scan (Outside, cur, mx) (dquote # k @ [dquote]) = (Outside, cur, mx)" .
qed

lemma number_char_plain: "is_number_char c \<Longrightarrow> plain c"
  by (auto simp: is_number_char_def plain_def is_digit_def byte_def dquote_def)

lemma ws_plain: "is_ws c \<Longrightarrow> plain c"
  by (auto simp: is_ws_def plain_def dquote_def)

lemma to_lower_special: "\<not> plain c \<Longrightarrow> to_lower c = c"
  by (auto simp: plain_def to_lower_def byte_def dquote_def)

lemma EqualFold_plain:
  assumes "EqualFold x ''inf'' \<or> EqualFold x ''nan''"
  shows "\<forall>c\<in>set x. plain c"
proof
  fix c assume c: "c \<in> set x"
  have l: "map to_lower ''inf'' = ''inf''" "map to_lower ''nan'' = ''nan''"
    by (simp_all add: to_lower_def byte_def)
  from assms have "map to_lower x = ''inf'' \<or> map to_lower x = ''nan''"
    by (simp only: EqualFold_def l)
  with c have "to_lower c \<in> set ''inf'' \<or> to_lower c \<in> set ''nan''"
    by (metis image_eqI set_map)
  then have m: "to_lower c \<in> {CHR ''i'', CHR ''n'', CHR ''f'', CHR ''a''}" by auto
  show "plain c"
  proof (rule ccontr)
    assume np: "\<not> plain c"
    from to_lower_special [OF np] m have "c \<in> {CHR ''i'', CHR ''n'', CHR ''f'', CHR ''a''}"
      by simp
    with np show False by (auto simp: plain_def dquote_def)
  qed
qed

lemma parseRawNumber_loop_plain:
  "parseRawNumber_loop s cs i = Inr (ns, t) \<Longrightarrow> s = pre @ cs \<Longrightarrow> length pre = i \<Longrightarrow>
     \<forall>c\<in>set pre. plain c \<Longrightarrow> s = ns @ t \<and> (\<forall>c\<in>set ns. plain c)"
proof (induction cs arbitrary: pre i)
  case Nil
  then show ?case by simp
next
  case (Cons ch cs)
  show ?case
  proof (cases "is_number_char ch")
    case True
    with Cons.prems(1) have rec: "parseRawNumber_loop s cs (i + 1) = Inr (ns, t)" by simp
    from Cons.prems(2) have s: "s = (pre @ [ch]) @ cs" by simp
    from Cons.prems(3) have l: "length (pre @ [ch]) = i + 1" by simp
    from Cons.prems(4) True have p: "\<forall>c\<in>set (pre @ [ch]). plain c"
      by (simp add: number_char_plain)
    from Cons.IH [OF rec s l p] show ?thesis .
  next
    case nn: False
    from Cons.prems(2,3) have d: "drop i s = ch # cs" and tk: "take i s = pre" by simp_all
    show ?thesis
    proof (cases "i = 0 \<or> (i = 1 \<and> (s ! 0 = CHR ''-'' \<or> s ! 0 = CHR ''+''))")
      case True
      with nn Cons.prems(1) have
        ef: "EqualFold (take 3 (drop i s)) ''inf'' \<or> EqualFold (take 3 (drop i s)) ''nan''"
        and ns: "ns = take (i + 3) s" and t: "t = drop (i + 3) s"
        by (auto split: if_splits)
      have "take (i + 3) s = take i s @ take 3 (drop i s)" by (rule take_add)
      with ns tk have ns': "ns = pre @ take 3 (drop i s)" by simp
      from EqualFold_plain [OF ef] Cons.prems(4) ns' have "\<forall>c\<in>set ns. plain c" by auto
      with ns t show ?thesis by simp
    next
      case False
      with nn Cons.prems(1) have "ns = take i s" "t = drop i s" by (auto split: if_splits)
      with d tk Cons.prems(2,4) show ?thesis by simp
    qed
  qed
qed

lemma parseRawNumber_plain:
  assumes "parseRawNumber s = Inr (ns, t)"
  shows "s = ns @ t \<and> (\<forall>c\<in>set ns. plain c)"
proof -
  from assms have "parseRawNumber_loop s s 0 = Inr (ns, t)" by (simp add: parseRawNumber_def)
  from parseRawNumber_loop_plain [OF this, of "[]"] show ?thesis by simp
qed

lemma skipWS_prefix: "\<exists>w. s = w @ skipWS s \<and> (\<forall>c\<in>set w. is_ws c)"
proof (cases "length s = 0 \<or> byte (hd s) > 0x20 \<or> \<not> is_ws (hd s)")
  case True
  then have "skipWS s = s" by (auto simp: skipWS_def skipWSSlow_def)
  then show ?thesis by (intro exI [of _ "[]"]) simp
next
  case False
  then obtain c r where s: "s = c # r" and c: "is_ws c" by (cases s) auto
  from False s have "skipWS s = dropWhile is_ws r" by (simp add: skipWS_def skipWSSlow_def)
  with s c show ?thesis
    by (intro exI [of _ "c # takeWhile is_ws r"]) (auto dest: set_takeWhileD)
qed

lemma skipWS_Nil_ws: "skipWS t = [] \<Longrightarrow> \<forall>c\<in>set t. is_ws c"
proof (cases t)
  case Nil
  then show ?thesis by simp
next
  case (Cons c r)
  assume e: "skipWS t = []"
  with Cons have c: "is_ws c" and "dropWhile is_ws r = []"
    by (auto simp: skipWS_def skipWSSlow_def split: if_splits)
  then have "\<forall>x\<in>set r. is_ws x" by (simp add: dropWhile_eq_Nil_conv)
  with c Cons show ?thesis by simp
qed

lemma spans_plain: "\<forall>c\<in>set u. plain c \<Longrightarrow> spans u 0"
  by (simp add: spans_def scan_plain max_def)

lemma spans_ws: "\<forall>c\<in>set u. is_ws c \<Longrightarrow> spans u 0"
  by (rule spans_plain) (simp add: ws_plain)

lemma spans_Nil: "spans [] 0"
  by (simp add: spans_def max_def)

lemma spans_append: "spans u n \<Longrightarrow> spans w m \<Longrightarrow> spans (u @ w) (max n m)"
proof -
  assume u: "spans u n" and w: "spans w m"
  show ?thesis
    unfolding spans_def
  proof (intro allI impI)
    fix cur mx :: nat assume le: "cur \<le> mx"
    with u have "scan (Outside, cur, mx) u = (Outside, cur, max mx (cur + n))"
      by (simp add: spans_def)
    moreover from le have "cur \<le> max mx (cur + n)" by simp
    with w have "scan (Outside, cur, max mx (cur + n)) w
        = (Outside, cur, max (max mx (cur + n)) (cur + m))"
      by (simp add: spans_def)
    ultimately show "scan (Outside, cur, mx) (u @ w) = (Outside, cur, max mx (cur + max n m))"
      by (simp add: scan_append max.assoc nat_add_max_right)
  qed
qed

lemma spans_append0: "spans u 0 \<Longrightarrow> spans w m \<Longrightarrow> spans (u @ w) m"
  using spans_append [of u 0 w m] by simp

lemma spans_append0': "spans u n \<Longrightarrow> spans w 0 \<Longrightarrow> spans (u @ w) n"
  using spans_append [of u n w 0] by simp

lemma spans_closes: "spans u n \<Longrightarrow> closes w m \<Longrightarrow> closes (u @ w) (max n m)"
proof -
  assume u: "spans u n" and w: "closes w m"
  show ?thesis
    unfolding closes_def
  proof (intro allI impI)
    fix cur mx :: nat assume le: "Suc cur \<le> mx"
    from u le have "scan (Outside, Suc cur, mx) u = (Outside, Suc cur, max mx (Suc cur + n))"
      by (simp add: spans_def)
    moreover from le have "Suc cur \<le> max mx (Suc cur + n)" by simp
    with w have "scan (Outside, Suc cur, max mx (Suc cur + n)) w
        = (Outside, cur, max (max mx (Suc cur + n)) (Suc cur + m))"
      by (simp add: closes_def)
    ultimately show "scan (Outside, Suc cur, mx) (u @ w) = (Outside, cur, max mx (Suc cur + max n m))"
      by (simp add: scan_append max.assoc nat_add_max_right)
  qed
qed

lemma spans_closes0: "spans u 0 \<Longrightarrow> closes w m \<Longrightarrow> closes (u @ w) m"
  using spans_closes [of u 0 w m] by simp

lemma closes_end: "c = CHR '']'' \<or> c = CHR ''}'' \<Longrightarrow> closes [c] 0"
  by (auto simp: closes_def dquote_def max_def)

lemma spans_container: "c = CHR ''['' \<or> c = CHR ''{'' \<Longrightarrow> closes w m \<Longrightarrow> spans (c # w) (Suc m)"
proof -
  assume c: "c = CHR ''['' \<or> c = CHR ''{''" and w: "closes w m"
  show ?thesis
    unfolding spans_def
  proof (intro allI impI)
    fix cur mx :: nat assume "cur \<le> mx"
    from c have "scan (Outside, cur, mx) (c # w) = scan (Outside, Suc cur, max mx (Suc cur)) w"
      by (auto simp: dquote_def)
    also from w have "\<dots> = (Outside, cur, max (max mx (Suc cur)) (Suc cur + m))"
      by (simp add: closes_def)
    also have "max (max mx (Suc cur)) (Suc cur + m) = max mx (cur + Suc m)"
      by simp
    finally show "scan (Outside, cur, mx) (c # w) = (Outside, cur, max mx (cur + Suc m))" .
  qed
qed

lemma opens_Nil: "opens [] 0"
  by (simp add: opens_def)

lemma spans_opens: "spans u k \<Longrightarrow> opens w n \<Longrightarrow> opens (u @ w) n"
proof -
  assume u: "spans u k" and w: "opens w n"
  show ?thesis
    unfolding opens_def
  proof (intro allI impI)
    fix cur mx :: nat assume le: "cur \<le> mx"
    from u le have s: "scan (Outside, cur, mx) u = (Outside, cur, max mx (cur + k))"
      by (simp add: spans_def)
    from le have "cur \<le> max mx (cur + k)" by simp
    with w obtain mx' where "scan (Outside, cur, max mx (cur + k)) w = (Outside, cur + n, mx')"
      "cur + n \<le> mx'"
      unfolding opens_def by blast
    with s show "\<exists>mx'. scan (Outside, cur, mx) (u @ w) = (Outside, cur + n, mx') \<and> cur + n \<le> mx'"
      by (simp add: scan_append)
  qed
qed

lemma opens_container: "c = CHR ''['' \<or> c = CHR ''{'' \<Longrightarrow> opens w n \<Longrightarrow> opens (c # w) (Suc n)"
proof -
  assume c: "c = CHR ''['' \<or> c = CHR ''{''" and w: "opens w n"
  show ?thesis
    unfolding opens_def
  proof (intro allI impI)
    fix cur mx :: nat assume le: "cur \<le> mx"
    from c have s: "scan (Outside, cur, mx) (c # w) = scan (Outside, Suc cur, max mx (Suc cur)) w"
      by (auto simp: dquote_def)
    have "Suc cur \<le> max mx (Suc cur)" by simp
    with w obtain mx' where "scan (Outside, Suc cur, max mx (Suc cur)) w = (Outside, Suc cur + n, mx')"
      "Suc cur + n \<le> mx'"
      unfolding opens_def by blast
    with s show "\<exists>mx'. scan (Outside, cur, mx) (c # w) = (Outside, cur + Suc n, mx') \<and> cur + Suc n \<le> mx'"
      by simp
  qed
qed

lemma spans_string: "parseRawString s = Inr (ss, tail) \<Longrightarrow> spans (dquote # ss @ [dquote]) 0"
  unfolding spans_def using scan_string_literal(2) [of s ss tail] by (simp add: max_def)

lemma spans_key: "parseRawKey s = Inr (k, t) \<Longrightarrow> spans (dquote # k @ [dquote]) 0"
  unfolding spans_def using scan_key_literal(2) [of s k t] by (simp add: max_def)

lemma nestings_append: "nestings (a @ b) = max (nestings a) (nestings b)"
  by (induction a) simp_all

lemma knestings_append: "knestings (a @ b) = max (knestings a) (knestings b)"
  by (induction a) simp_all

lemma skipWS_spans:
  obtains w where "s = w @ skipWS s" "spans w 0"
  using skipWS_prefix [of s] spans_ws by blast

lemma spans_char: "plain c \<Longrightarrow> spans [c] 0"
  by (rule spans_plain) simp

lemma hd_tl: "\<not> length s = 0 \<Longrightarrow> s = hd s # tl s"
  by (cases s) simp_all

lemma parse_spans:
  "parseValue s d = Inr (v, t) \<Longrightarrow> \<exists>u. s = u @ t \<and> spans u (nesting v)"
  "parseArray s d = Inr (v, t) \<Longrightarrow> \<exists>u a. s = u @ t \<and> v = VArray a \<and> closes u (nestings a)"
  "parseArray_loop s d a0 = Inr (v, t)
     \<Longrightarrow> \<exists>u items. s = u @ t \<and> v = VArray (a0 @ items) \<and> closes u (nestings items)"
  "parseObject s d = Inr (v, t)
     \<Longrightarrow> \<exists>u ents ku. s = u @ t \<and> v = VObject (Object ents ku) \<and> closes u (knestings ents)"
  "parseObject_loop s d kv0 = Inr (v, t)
     \<Longrightarrow> \<exists>u ents ku. s = u @ t \<and> v = VObject (Object (kv0 @ ents) ku) \<and> closes u (knestings ents)"
proof (induct s d and s d and s d a0 and s d and s d kv0
    arbitrary: v t and v t and v t and v t and v t
    rule: parseValue_parseArray_parseArray_loop_parseObject_parseObject_loop.induct)
  case (1 s depth0)
  note eq = "1.prems" [unfolded parseValue.simps [of s depth0] Let_def]
  from eq have ne: "\<not> length s = 0" and dp: "\<not> MaxDepth < depth0 + 1"
    by (auto split: if_splits)
  note s = hd_tl [OF ne]
  show ?case
  proof (cases "hd s = CHR ''{''")
    case True
    with eq ne dp have "parseObject (tl s) (depth0 + 1) = Inr (v, t)"
      by (auto split: sum.splits)
    from "1.hyps"(1) [OF ne refl dp True this] obtain u ents ku
      where u: "tl s = u @ t" "v = VObject (Object ents ku)" "closes u (knestings ents)"
      by blast
    from u(3) have "spans (CHR ''{'' # u) (Suc (knestings ents))"
      by (rule spans_container [rotated]) simp
    moreover from s True u(1) have "s = (CHR ''{'' # u) @ t" by simp
    ultimately show ?thesis using u(2) by (intro exI [of _ "CHR ''{'' # u"]) simp
  next
    case no: False
    show ?thesis
    proof (cases "hd s = CHR ''[''")
      case True
      with eq ne dp no have "parseArray (tl s) (depth0 + 1) = Inr (v, t)"
        by (auto split: sum.splits)
      from "1.hyps"(2) [OF ne refl dp no True this] obtain u a
        where u: "tl s = u @ t" "v = VArray a" "closes u (nestings a)"
        by blast
      from u(3) have "spans (CHR ''['' # u) (Suc (nestings a))"
        by (rule spans_container [rotated]) simp
      moreover from s True u(1) have "s = (CHR ''['' # u) @ t" by simp
      ultimately show ?thesis using u(2) by (intro exI [of _ "CHR ''['' # u"]) simp
    next
      case na: False
      show ?thesis
      proof (cases "hd s = dquote")
        case True
        with eq ne dp no na obtain ss where r: "parseRawString (tl s) = Inr (ss, t)"
          and v: "v = VRawString ss"
          by (auto split: sum.splits)
        from parseRawString_split [OF r] s True have "s = (dquote # ss @ [dquote]) @ t" by simp
        with spans_string [OF r] v show ?thesis
          by (intro exI [of _ "dquote # ss @ [dquote]"]) simp
      next
        case nq: False
        show ?thesis
        proof (cases "hd s = CHR ''t''")
          case True
          with eq ne dp no na nq have tk: "take 4 s = ''true''" and v: "v = VTrue"
            and t: "t = drop 4 s"
            by (auto split: if_splits)
          have "spans (take 4 s) 0" unfolding tk by (rule spans_plain) (simp add: plain_def dquote_def)
          with v t show ?thesis by (intro exI [of _ "take 4 s"]) simp
        next
          case nt: False
          show ?thesis
          proof (cases "hd s = CHR ''f''")
            case True
            with eq ne dp no na nq nt have tk: "take 5 s = ''false''" and v: "v = VFalse"
              and t: "t = drop 5 s"
              by (auto split: if_splits)
            have "spans (take 5 s) 0" unfolding tk by (rule spans_plain) (simp add: plain_def dquote_def)
            with v t show ?thesis by (intro exI [of _ "take 5 s"]) simp
          next
            case nf: False
            show ?thesis
            proof (cases "hd s = CHR ''n''")
              case True
              show ?thesis
              proof (cases "length s < 4 \<or> take 4 s \<noteq> ''null''")
                case False
                with eq ne dp no na nq nt nf True have v: "v = VNull" and t: "t = drop 4 s"
                  by (auto split: if_splits)
                from False have tk: "take 4 s = ''null''" by simp
                have "spans (take 4 s) 0"
                  unfolding tk by (rule spans_plain) (simp add: plain_def dquote_def)
                with v t show ?thesis by (intro exI [of _ "take 4 s"]) simp
              next
                case nn: True
                with eq ne dp no na nq nt nf True
                have ef: "EqualFold (take 3 s) ''nan''" and v: "v = VNumber (take 3 s)"
                  and t: "t = drop 3 s"
                  by (auto split: if_splits)
                from ef have "spans (take 3 s) 0"
                  by (intro spans_plain EqualFold_plain) simp
                with v t show ?thesis by (intro exI [of _ "take 3 s"]) simp
              qed
            next
              case False
              with eq ne dp no na nq nt nf obtain ns where r: "parseRawNumber s = Inr (ns, t)"
                and v: "v = VNumber ns"
                by (auto split: sum.splits)
              from parseRawNumber_plain [OF r] have "s = ns @ t" "spans ns 0"
                by (simp_all add: spans_plain)
              with v show ?thesis by (intro exI [of _ ns]) simp
            qed
          qed
        qed
      qed
    qed
  qed
next
  case (2 s0 depth)
  note eq = "2.prems"(1) [unfolded parseArray.simps [of s0 depth] Let_def]
  obtain w where w: "s0 = w @ skipWS s0" "spans w 0" by (rule skipWS_spans)
  show ?case
  proof (cases "length (skipWS s0) = 0")
    case True
    with eq show ?thesis by simp
  next
    case ne: False
    note s = hd_tl [OF ne]
    show ?thesis
    proof (cases "hd (skipWS s0) = CHR '']''")
      case True
      with eq ne have v: "v = VArray []" and t: "t = tl (skipWS s0)" by auto
      from w(1) s True t have "s0 = (w @ [CHR '']'']) @ t" by simp
      moreover have "closes (w @ [CHR '']'']) 0"
        by (rule spans_closes0 [OF w(2)]) (simp add: closes_end)
      ultimately show ?thesis using v by (intro exI [of _ "w @ [CHR '']'']"] exI [of _ "[]"]) simp
    next
      case False
      with eq ne have "parseArray_loop (skipWS s0) depth [] = Inr (v, t)" by simp
      from "2.hyps" [OF refl ne False this] obtain u items
        where u: "skipWS s0 = u @ t" "v = VArray ([] @ items)" "closes u (nestings items)"
        by blast
      from w(1) u(1) have "s0 = (w @ u) @ t" by simp
      moreover have "closes (w @ u) (nestings items)" by (rule spans_closes0 [OF w(2) u(3)])
      ultimately show ?thesis using u(2) by (intro exI [of _ "w @ u"] exI [of _ items]) simp
    qed
  qed
next
  case (3 s0 depth a)
  note eq = "3.prems"(1) [unfolded parseArray_loop.simps [of s0 depth a] Let_def]
  obtain w where w: "s0 = w @ skipWS s0" "spans w 0" by (rule skipWS_spans)
  from eq obtain x s1 where pv: "parseValue (skipWS s0) depth = Inr (x, s1)"
    by (auto split: sum.splits)
  from "3.hyps"(1) [OF pv] obtain u1 where u1: "skipWS s0 = u1 @ s1" "spans u1 (nesting x)"
    by blast
  obtain w2 where w2: "s1 = w2 @ skipWS s1" "spans w2 0" by (rule skipWS_spans)
  from eq pv have ne: "length (skipWS s1) \<noteq> 0" by (auto split: if_splits)
  then have ne': "\<not> length (skipWS s1) = 0" by simp
  note s = hd_tl [OF ne']
  have pre: "spans (w @ u1 @ w2) (nesting x)"
    by (rule spans_append0 [OF w(2)]) (rule spans_append0' [OF u1(2) w2(2)])
  have s0: "s0 = (w @ u1 @ w2) @ skipWS s1"
    using w(1) u1(1) w2(1) by simp
  show ?case
  proof (cases "hd (skipWS s1) = CHR '',''")
    case True
    with eq pv ne have "parseArray_loop (tl (skipWS s1)) depth (a @ [x]) = Inr (v, t)" by simp
    from "3.hyps"(2) [OF pv refl refl refl ne True this] obtain u3 items
      where u3: "tl (skipWS s1) = u3 @ t" "v = VArray ((a @ [x]) @ items)"
        "closes u3 (nestings items)"
      by blast
    have "spans ((w @ u1 @ w2) @ [CHR '','']) (nesting x)"
      by (rule spans_append0' [OF pre]) (simp add: spans_char plain_def dquote_def)
    from spans_closes [OF this u3(3)]
    have c: "closes (((w @ u1 @ w2) @ [CHR '','']) @ u3) (nestings (x # items))" by simp
    from s True u3(1) have "skipWS s1 = CHR '','' # u3 @ t" by simp
    with s0 have "s0 = (((w @ u1 @ w2) @ [CHR '','']) @ u3) @ t" by simp
    with c u3(2) show ?thesis
      by (intro exI [of _ "((w @ u1 @ w2) @ [CHR '','']) @ u3"] exI [of _ "x # items"]) simp
  next
    case False
    with eq pv ne have v: "v = VArray (a @ [x])" and t: "t = tl (skipWS s1)"
      and h: "hd (skipWS s1) = CHR '']''"
      by (auto split: if_splits)
    have "closes ((w @ u1 @ w2) @ [CHR '']'']) (max (nesting x) 0)"
      by (rule spans_closes [OF pre]) (simp add: closes_end)
    then have c: "closes ((w @ u1 @ w2) @ [CHR '']'']) (nestings [x])" by simp
    from s h t have "skipWS s1 = CHR '']'' # t" by simp
    with s0 have "s0 = ((w @ u1 @ w2) @ [CHR '']'']) @ t" by simp
    with c v show ?thesis
      by (intro exI [of _ "(w @ u1 @ w2) @ [CHR '']'']"] exI [of _ "[x]"]) simp
  qed
next
  case (4 s0 depth)
  note eq = "4.prems"(1) [unfolded parseObject.simps [of s0 depth] Let_def]
  obtain w where w: "s0 = w @ skipWS s0" "spans w 0" by (rule skipWS_spans)
  show ?case
  proof (cases "length (skipWS s0) = 0")
    case True
    with eq show ?thesis by simp
  next
    case ne: False
    note s = hd_tl [OF ne]
    show ?thesis
    proof (cases "hd (skipWS s0) = CHR ''}''")
      case True
      with eq ne have v: "v = VObject (Object [] False)" and t: "t = tl (skipWS s0)" by auto
      from w(1) s True t have "s0 = (w @ [CHR ''}'']) @ t" by simp
      moreover have "closes (w @ [CHR ''}'']) 0"
        by (rule spans_closes0 [OF w(2)]) (simp add: closes_end)
      ultimately show ?thesis using v
        by (intro exI [of _ "w @ [CHR ''}'']"] exI [of _ "[]"] exI [of _ False]) simp
    next
      case False
      with eq ne have "parseObject_loop (skipWS s0) depth [] = Inr (v, t)" by simp
      from "4.hyps" [OF refl ne False this] obtain u ents ku
        where u: "skipWS s0 = u @ t" "v = VObject (Object ([] @ ents) ku)"
          "closes u (knestings ents)"
        by blast
      from w(1) u(1) have "s0 = (w @ u) @ t" by simp
      moreover have "closes (w @ u) (knestings ents)" by (rule spans_closes0 [OF w(2) u(3)])
      ultimately show ?thesis using u(2)
        by (intro exI [of _ "w @ u"] exI [of _ ents] exI [of _ ku]) simp
    qed
  qed
next
  case (5 s0 depth kvs0)
  note eq = "5.prems"(1) [unfolded parseObject_loop.simps [of s0 depth kvs0] Let_def]
  let ?s = "skipWS s0"
  obtain w where w: "s0 = w @ ?s" "spans w 0" by (rule skipWS_spans)
  from eq have c1: "\<not> (length ?s = 0 \<or> hd ?s \<noteq> dquote)" by (auto split: if_splits)
  then have ne1: "\<not> length ?s = 0" and h1: "hd ?s = dquote" by simp_all
  from eq c1 obtain k s1 where pk: "parseRawKey (tl ?s) = Inr (k, s1)"
    by (auto split: sum.splits)
  let ?s2 = "skipWS s1"
  obtain w2 where w2: "s1 = w2 @ ?s2" "spans w2 0" by (rule skipWS_spans)
  from eq c1 pk have c2: "\<not> (length ?s2 = 0 \<or> hd ?s2 \<noteq> CHR '':'')" by (auto split: if_splits)
  then have ne2: "\<not> length ?s2 = 0" and h2: "hd ?s2 = CHR '':''" by simp_all
  obtain w3 where w3: "tl ?s2 = w3 @ skipWS (tl ?s2)" "spans w3 0" by (rule skipWS_spans)
  from eq c1 pk c2 obtain x s3 where pv: "parseValue (skipWS (tl ?s2)) depth = Inr (x, s3)"
    by (auto split: sum.splits)
  from "5.hyps"(1) [OF refl c1 pk refl refl c2 pv] obtain u1
    where u1: "skipWS (tl ?s2) = u1 @ s3" "spans u1 (nesting x)"
    by blast
  let ?s4 = "skipWS s3"
  obtain w4 where w4: "s3 = w4 @ ?s4" "spans w4 0" by (rule skipWS_spans)
  from eq c1 pk c2 pv have ne4: "length ?s4 \<noteq> 0" by (auto split: if_splits)
  then have ne4': "\<not> length ?s4 = 0" by simp
  define key where "key = dquote # k @ [dquote]"
  have key: "spans key 0" unfolding key_def by (rule spans_key [OF pk])
  from scan_key_literal(1) [OF pk] hd_tl [OF ne1] h1 have s: "?s = key @ s1"
    by (simp add: key_def)
  from hd_tl [OF ne2] h2 have s2: "?s2 = CHR '':'' # tl ?s2" by simp
  define pre where "pre = w @ key @ w2 @ [CHR '':''] @ w3 @ u1 @ w4"
  have "spans ([CHR '':''] @ w3 @ u1 @ w4) (nesting x)"
    by (intro spans_append0 [OF spans_char] spans_append0 [OF w3(2)] spans_append0' [OF u1(2) w4(2)])
      (simp add: plain_def dquote_def)
  then have pre: "spans pre (nesting x)"
    unfolding pre_def by (intro spans_append0 [OF w(2)] spans_append0 [OF key] spans_append0 [OF w2(2)])
  have "s0 = w @ key @ w2 @ CHR '':'' # w3 @ u1 @ w4 @ ?s4"
    using w(1) s w2(1) s2 w3(1) u1(1) w4(1) by (metis append_Cons)
  then have s0: "s0 = pre @ ?s4" by (simp add: pre_def)
  note s4 = hd_tl [OF ne4']
  show ?case
  proof (cases "hd ?s4 = CHR '',''")
    case True
    with eq c1 pk c2 pv ne4
    have "parseObject_loop (tl ?s4) depth (kvs0 @ [KV k x]) = Inr (v, t)" by simp
    from "5.hyps"(2) [OF refl c1 pk refl refl c2 pv refl refl refl ne4 True this]
    obtain u3 ents ku where u3: "tl ?s4 = u3 @ t"
      "v = VObject (Object ((kvs0 @ [KV k x]) @ ents) ku)" "closes u3 (knestings ents)"
      by blast
    have "spans (pre @ [CHR '','']) (nesting x)"
      by (rule spans_append0' [OF pre]) (simp add: spans_char plain_def dquote_def)
    from spans_closes [OF this u3(3)]
    have c: "closes ((pre @ [CHR '','']) @ u3) (knestings (KV k x # ents))" by simp
    from s4 True u3(1) have "?s4 = CHR '','' # u3 @ t" by simp
    with s0 have "s0 = ((pre @ [CHR '','']) @ u3) @ t" by simp
    with c u3(2) show ?thesis
      by (intro exI [of _ "(pre @ [CHR '','']) @ u3"] exI [of _ "KV k x # ents"] exI [of _ ku]) simp
  next
    case False
    with eq c1 pk c2 pv ne4 have v: "v = VObject (Object (kvs0 @ [KV k x]) False)"
      and t: "t = tl ?s4" and h: "hd ?s4 = CHR ''}''"
      by (auto split: if_splits)
    have "closes (pre @ [CHR ''}'']) (max (nesting x) 0)"
      by (rule spans_closes [OF pre]) (simp add: closes_end)
    then have c: "closes (pre @ [CHR ''}'']) (knestings [KV k x])" by simp
    from s4 h t have "?s4 = CHR ''}'' # t" by simp
    with s0 have "s0 = (pre @ [CHR ''}'']) @ t" by simp
    with c v show ?thesis
      by (intro exI [of _ "pre @ [CHR ''}'']"] exI [of _ "[KV k x]"] exI [of _ False]) simp
  qed
qed

lemma parse_nesting_ok:
  "parseValue s d = Inr (v, t) \<Longrightarrow> d + nesting v \<le> MaxDepth"
  "parseArray s d = Inr (v, t) \<Longrightarrow> d \<le> MaxDepth \<Longrightarrow> \<exists>a. v = VArray a \<and> d + nestings a \<le> MaxDepth"
  "parseArray_loop s d a0 = Inr (v, t) \<Longrightarrow> d + nestings a0 \<le> MaxDepth
     \<Longrightarrow> \<exists>a. v = VArray a \<and> d + nestings a \<le> MaxDepth"
  "parseObject s d = Inr (v, t) \<Longrightarrow> d \<le> MaxDepth
     \<Longrightarrow> \<exists>ob. v = VObject ob \<and> d + onesting ob \<le> MaxDepth"
  "parseObject_loop s d kv0 = Inr (v, t) \<Longrightarrow> d + knestings kv0 \<le> MaxDepth
     \<Longrightarrow> \<exists>ob. v = VObject ob \<and> d + onesting ob \<le> MaxDepth"
proof (induct s d and s d and s d a0 and s d and s d kv0
    arbitrary: v t and v t and v t and v t and v t
    rule: parseValue_parseArray_parseArray_loop_parseObject_parseObject_loop.induct)
  case (1 s depth0)
  note eq = "1.prems" [unfolded parseValue.simps [of s depth0] Let_def]
  from eq have ne: "\<not> length s = 0" and dp: "\<not> MaxDepth < depth0 + 1"
    by (auto split: if_splits)
  from dp have le: "depth0 + 1 \<le> MaxDepth" by simp
  show ?case
  proof (cases "hd s = CHR ''{''")
    case True
    with eq ne dp have "parseObject (tl s) (depth0 + 1) = Inr (v, t)"
      by (auto split: sum.splits)
    from "1.hyps"(1) [OF ne refl dp True this le] show ?thesis by auto
  next
    case no: False
    show ?thesis
    proof (cases "hd s = CHR ''[''")
      case True
      with eq ne dp no have "parseArray (tl s) (depth0 + 1) = Inr (v, t)"
        by (auto split: sum.splits)
      from "1.hyps"(2) [OF ne refl dp no True this le] show ?thesis by auto
    next
      case na: False
      from eq ne dp no na have "nesting v = 0"
        by (auto split: sum.splits if_splits)
      with le show ?thesis by simp
    qed
  qed
next
  case (2 s0 depth)
  note eq = "2.prems"(1) [unfolded parseArray.simps [of s0 depth] Let_def]
  show ?case
  proof (cases "length (skipWS s0) = 0")
    case True
    with eq show ?thesis by simp
  next
    case ne: False
    show ?thesis
    proof (cases "hd (skipWS s0) = CHR '']''")
      case True
      with eq ne have "v = VArray []" by auto
      with "2.prems"(2) show ?thesis by simp
    next
      case False
      with eq ne have "parseArray_loop (skipWS s0) depth [] = Inr (v, t)" by simp
      from "2.hyps" [OF refl ne False this] "2.prems"(2) show ?thesis by simp
    qed
  qed
next
  case (3 s0 depth a)
  note eq = "3.prems"(1) [unfolded parseArray_loop.simps [of s0 depth a] Let_def]
  from eq obtain x s1 where pv: "parseValue (skipWS s0) depth = Inr (x, s1)"
    by (auto split: sum.splits)
  from "3.hyps"(1) [OF pv] have dx: "depth + nesting x \<le> MaxDepth" .
  with "3.prems"(2) have da: "depth + nestings (a @ [x]) \<le> MaxDepth"
    by (simp add: nestings_append)
  from eq pv have ne: "length (skipWS s1) \<noteq> 0" by (auto split: if_splits)
  show ?case
  proof (cases "hd (skipWS s1) = CHR '',''")
    case True
    with eq pv ne have "parseArray_loop (tl (skipWS s1)) depth (a @ [x]) = Inr (v, t)" by simp
    from "3.hyps"(2) [OF pv refl refl refl ne True this da] show ?thesis .
  next
    case False
    with eq pv ne have "v = VArray (a @ [x])" by (auto split: if_splits)
    with da show ?thesis by simp
  qed
next
  case (4 s0 depth)
  note eq = "4.prems"(1) [unfolded parseObject.simps [of s0 depth] Let_def]
  show ?case
  proof (cases "length (skipWS s0) = 0")
    case True
    with eq show ?thesis by simp
  next
    case ne: False
    show ?thesis
    proof (cases "hd (skipWS s0) = CHR ''}''")
      case True
      with eq ne have "v = VObject (Object [] False)" by auto
      with "4.prems"(2) show ?thesis by simp
    next
      case False
      with eq ne have "parseObject_loop (skipWS s0) depth [] = Inr (v, t)" by simp
      from "4.hyps" [OF refl ne False this] "4.prems"(2) show ?thesis by simp
    qed
  qed
next
  case (5 s0 depth kvs0)
  note eq = "5.prems"(1) [unfolded parseObject_loop.simps [of s0 depth kvs0] Let_def]
  let ?s = "skipWS s0"
  from eq have c1: "\<not> (length ?s = 0 \<or> hd ?s \<noteq> dquote)" by (auto split: if_splits)
  from eq c1 obtain k s1 where pk: "parseRawKey (tl ?s) = Inr (k, s1)"
    by (auto split: sum.splits)
  let ?s2 = "skipWS s1"
  from eq c1 pk have c2: "\<not> (length ?s2 = 0 \<or> hd ?s2 \<noteq> CHR '':'')" by (auto split: if_splits)
  from eq c1 pk c2 obtain x s3 where pv: "parseValue (skipWS (tl ?s2)) depth = Inr (x, s3)"
    by (auto split: sum.splits)
  from "5.hyps"(1) [OF refl c1 pk refl refl c2 pv] have dx: "depth + nesting x \<le> MaxDepth" .
  with "5.prems"(2) have da: "depth + knestings (kvs0 @ [KV k x]) \<le> MaxDepth"
    by (simp add: knestings_append)
  let ?s4 = "skipWS s3"
  from eq c1 pk c2 pv have ne4: "length ?s4 \<noteq> 0" by (auto split: if_splits)
  show ?case
  proof (cases "hd ?s4 = CHR '',''")
    case True
    with eq c1 pk c2 pv ne4
    have "parseObject_loop (tl ?s4) depth (kvs0 @ [KV k x]) = Inr (v, t)" by simp
    from "5.hyps"(2) [OF refl c1 pk refl refl c2 pv refl refl refl ne4 True this da]
    show ?thesis .
  next
    case False
    with eq c1 pk c2 pv ne4 have "v = VObject (Object (kvs0 @ [KV k x]) False)"
      by (auto split: if_splits)
    with da show ?thesis by simp
  qed
qed

lemma parse_error_opens:
  "parseValue s d = Inl (e, t) \<Longrightarrow> is_depth_error e \<Longrightarrow> \<exists>u. s = u @ t \<and> opens u (containers e)"
  "parseArray s d = Inl (e, t) \<Longrightarrow> is_depth_error e \<Longrightarrow> \<exists>u. s = u @ t \<and> opens u (containers e)"
  "parseArray_loop s d a0 = Inl (e, t) \<Longrightarrow> is_depth_error e
     \<Longrightarrow> \<exists>u. s = u @ t \<and> opens u (containers e)"
  "parseObject s d = Inl (e, t) \<Longrightarrow> is_depth_error e \<Longrightarrow> \<exists>u. s = u @ t \<and> opens u (containers e)"
  "parseObject_loop s d kv0 = Inl (e, t) \<Longrightarrow> is_depth_error e
     \<Longrightarrow> \<exists>u. s = u @ t \<and> opens u (containers e)"
proof (induct s d and s d and s d a0 and s d and s d kv0
    arbitrary: e t and e t and e t and e t and e t
    rule: parseValue_parseArray_parseArray_loop_parseObject_parseObject_loop.induct)
  case (1 s depth0)
  note eq = "1.prems"(1) [unfolded parseValue.simps [of s depth0] Let_def]
  note de = "1.prems"(2)
  from eq de have ne: "\<not> length s = 0" by (auto split: if_splits)
  note s = hd_tl [OF ne]
  show ?case
  proof (cases "MaxDepth < depth0 + 1")
    case True
    with eq ne have "e = TooBigDepth" "t = s" by simp_all
    with opens_Nil show ?thesis by (intro exI [of _ "[]"]) simp
  next
    case dp: False
    show ?thesis
    proof (cases "hd s = CHR ''{''")
      case True
      with eq ne dp obtain e' where pe: "parseObject (tl s) (depth0 + 1) = Inl (e', t)"
        and e: "e = CannotParseObject e'"
        by (auto split: sum.splits)
      from de e have "is_depth_error e'" by simp
      from "1.hyps"(1) [OF ne refl dp True pe this] obtain u
        where u: "tl s = u @ t" "opens u (containers e')" by blast
      from u(2) have "opens (CHR ''{'' # u) (Suc (containers e'))"
        by (rule opens_container [rotated]) simp
      moreover from s True u(1) have "s = (CHR ''{'' # u) @ t" by simp
      ultimately show ?thesis using e by (intro exI [of _ "CHR ''{'' # u"]) simp
    next
      case no: False
      show ?thesis
      proof (cases "hd s = CHR ''[''")
        case True
        with eq ne dp no obtain e' where pe: "parseArray (tl s) (depth0 + 1) = Inl (e', t)"
          and e: "e = CannotParseArray e'"
          by (auto split: sum.splits)
        from de e have "is_depth_error e'" by simp
        from "1.hyps"(2) [OF ne refl dp no True pe this] obtain u
          where u: "tl s = u @ t" "opens u (containers e')" by blast
        from u(2) have "opens (CHR ''['' # u) (Suc (containers e'))"
          by (rule opens_container [rotated]) simp
        moreover from s True u(1) have "s = (CHR ''['' # u) @ t" by simp
        ultimately show ?thesis using e by (intro exI [of _ "CHR ''['' # u"]) simp
      next
        case na: False
        from eq ne dp no na have "\<not> is_depth_error e"
          by (auto split: sum.splits if_splits)
        with de show ?thesis by simp
      qed
    qed
  qed
next
  case (2 s0 depth)
  note eq = "2.prems"(1) [unfolded parseArray.simps [of s0 depth] Let_def]
  note de = "2.prems"(2)
  obtain w where w: "s0 = w @ skipWS s0" "spans w 0" by (rule skipWS_spans)
  show ?case
  proof (cases "length (skipWS s0) = 0")
    case True
    with eq de show ?thesis by auto
  next
    case ne: False
    show ?thesis
    proof (cases "hd (skipWS s0) = CHR '']''")
      case True
      with eq ne show ?thesis by simp
    next
      case False
      with eq ne have "parseArray_loop (skipWS s0) depth [] = Inl (e, t)" by simp
      from "2.hyps" [OF refl ne False this de] obtain u
        where u: "skipWS s0 = u @ t" "opens u (containers e)" by blast
      from w(1) u(1) have "s0 = (w @ u) @ t" by simp
      with spans_opens [OF w(2) u(2)] show ?thesis by blast
    qed
  qed
next
  case (3 s0 depth a)
  note eq = "3.prems"(1) [unfolded parseArray_loop.simps [of s0 depth a] Let_def]
  note de = "3.prems"(2)
  obtain w where w: "s0 = w @ skipWS s0" "spans w 0" by (rule skipWS_spans)
  show ?case
  proof (cases "parseValue (skipWS s0) depth")
    case (Inl p)
    obtain e' s1 where p: "p = (e', s1)" by (cases p)
    with Inl eq have e: "e = CannotParseArrayValue e'" and t: "s1 = t" by simp_all
    with de have "is_depth_error e'" by simp
    from "3.hyps"(1) [OF Inl [unfolded p t] this] obtain u
      where u: "skipWS s0 = u @ t" "opens u (containers e')" by blast
    from w(1) u(1) have "s0 = (w @ u) @ t" by simp
    with spans_opens [OF w(2) u(2)] e show ?thesis by auto
  next
    case (Inr p)
    obtain x s1 where p: "p = (x, s1)" by (cases p)
    note pv = Inr [unfolded p]
    from parse_spans(1) [OF pv] obtain u1 where u1: "skipWS s0 = u1 @ s1" "spans u1 (nesting x)"
      by blast
    obtain w2 where w2: "s1 = w2 @ skipWS s1" "spans w2 0" by (rule skipWS_spans)
    show ?thesis
    proof (cases "length (skipWS s1) = 0")
      case True
      with eq pv de show ?thesis by auto
    next
      case ne: False
      note s = hd_tl [OF ne]
      show ?thesis
      proof (cases "hd (skipWS s1) = CHR '',''")
        case True
        with eq pv ne have "parseArray_loop (tl (skipWS s1)) depth (a @ [x]) = Inl (e, t)"
          by simp
        from "3.hyps"(2) [OF pv refl refl refl ne True this de] obtain u3
          where u3: "tl (skipWS s1) = u3 @ t" "opens u3 (containers e)" by blast
        have "spans (w @ u1 @ w2 @ [CHR '','']) (nesting x)"
          by (intro spans_append0 [OF w(2)] spans_append [of u1 "nesting x" _ 0, simplified]
              u1(2) spans_append0 [OF w2(2)] spans_char)
            (simp add: plain_def dquote_def)
        from spans_opens [OF this u3(2)]
        have o: "opens ((w @ u1 @ w2 @ [CHR '','']) @ u3) (containers e)" .
        from s True u3(1) have "skipWS s1 = CHR '','' # u3 @ t" by simp
        with w(1) u1(1) w2(1) have "s0 = ((w @ u1 @ w2 @ [CHR '','']) @ u3) @ t"
          by (metis append.assoc append_Cons append_Nil)
        with o show ?thesis by blast
      next
        case False
        with eq pv ne de show ?thesis by (auto split: if_splits)
      qed
    qed
  qed
next
  case (4 s0 depth)
  note eq = "4.prems"(1) [unfolded parseObject.simps [of s0 depth] Let_def]
  note de = "4.prems"(2)
  obtain w where w: "s0 = w @ skipWS s0" "spans w 0" by (rule skipWS_spans)
  show ?case
  proof (cases "length (skipWS s0) = 0")
    case True
    with eq de show ?thesis by auto
  next
    case ne: False
    show ?thesis
    proof (cases "hd (skipWS s0) = CHR ''}''")
      case True
      with eq ne show ?thesis by simp
    next
      case False
      with eq ne have "parseObject_loop (skipWS s0) depth [] = Inl (e, t)" by simp
      from "4.hyps" [OF refl ne False this de] obtain u
        where u: "skipWS s0 = u @ t" "opens u (containers e)" by blast
      from w(1) u(1) have "s0 = (w @ u) @ t" by simp
      with spans_opens [OF w(2) u(2)] show ?thesis by blast
    qed
  qed
next
  case (5 s0 depth kvs0)
  note eq = "5.prems"(1) [unfolded parseObject_loop.simps [of s0 depth kvs0] Let_def]
  note de = "5.prems"(2)
  let ?s = "skipWS s0"
  obtain w where w: "s0 = w @ ?s" "spans w 0" by (rule skipWS_spans)
  show ?case
  proof (cases "length ?s = 0 \<or> hd ?s \<noteq> dquote")
    case True
    with eq de show ?thesis by auto
  next
    case c1: False
    then have ne1: "\<not> length ?s = 0" and h1: "hd ?s = dquote" by simp_all
    show ?thesis
    proof (cases "parseRawKey (tl ?s)")
      case (Inl p)
      with eq c1 de show ?thesis by (cases p) auto
    next
      case (Inr p)
      obtain k s1 where p: "p = (k, s1)" by (cases p)
      note pk = Inr [unfolded p]
      let ?s2 = "skipWS s1"
      obtain w2 where w2: "s1 = w2 @ ?s2" "spans w2 0" by (rule skipWS_spans)
      define key where "key = dquote # k @ [dquote]"
      have key: "spans key 0" unfolding key_def by (rule spans_key [OF pk])
      from scan_key_literal(1) [OF pk] hd_tl [OF ne1] h1 have s: "?s = key @ s1"
        by (simp add: key_def)
      show ?thesis
      proof (cases "length ?s2 = 0 \<or> hd ?s2 \<noteq> CHR '':''")
        case True
        with eq c1 pk de show ?thesis by auto
      next
        case c2: False
        then have ne2: "\<not> length ?s2 = 0" and h2: "hd ?s2 = CHR '':''" by simp_all
        from hd_tl [OF ne2] h2 have s2: "?s2 = CHR '':'' # tl ?s2" by simp
        obtain w3 where w3: "tl ?s2 = w3 @ skipWS (tl ?s2)" "spans w3 0" by (rule skipWS_spans)
        define pre where "pre = w @ key @ w2 @ [CHR '':''] @ w3"
        have pre: "spans pre 0"
          unfolding pre_def
          by (intro spans_append0 [OF w(2)] spans_append0 [OF key] spans_append0 [OF w2(2)]
              spans_append0 [OF spans_char] w3(2))
            (simp add: plain_def dquote_def)
        have "s0 = w @ key @ w2 @ CHR '':'' # w3 @ skipWS (tl ?s2)"
          using w(1) s w2(1) s2 w3(1) by (metis append_Cons)
        then have s0: "s0 = pre @ skipWS (tl ?s2)" by (simp add: pre_def)
        show ?thesis
        proof (cases "parseValue (skipWS (tl ?s2)) depth")
          case (Inl q)
          obtain e' s3 where q: "q = (e', s3)" by (cases q)
          note pv = Inl [unfolded q]
          with eq c1 pk c2 have e: "e = CannotParseObjectValue e'" and t: "s3 = t" by simp_all
          with de have "is_depth_error e'" by simp
          from "5.hyps"(1) [OF refl c1 pk refl refl c2 pv [unfolded t] this] obtain u
            where u: "skipWS (tl ?s2) = u @ t" "opens u (containers e')" by blast
          from s0 u(1) have "s0 = (pre @ u) @ t" by simp
          with spans_opens [OF pre u(2)] e show ?thesis by auto
        next
          case (Inr q)
          obtain x s3 where q: "q = (x, s3)" by (cases q)
          note pv = Inr [unfolded q]
          from parse_spans(1) [OF pv] obtain u1
            where u1: "skipWS (tl ?s2) = u1 @ s3" "spans u1 (nesting x)" by blast
          let ?s4 = "skipWS s3"
          obtain w4 where w4: "s3 = w4 @ ?s4" "spans w4 0" by (rule skipWS_spans)
          show ?thesis
          proof (cases "length ?s4 = 0")
            case True
            with eq c1 pk c2 pv de show ?thesis by auto
          next
            case ne4: False
            note s4 = hd_tl [OF ne4]
            show ?thesis
            proof (cases "hd ?s4 = CHR '',''")
              case True
              with eq c1 pk c2 pv ne4
              have "parseObject_loop (tl ?s4) depth (kvs0 @ [KV k x]) = Inl (e, t)" by simp
              from "5.hyps"(2) [OF refl c1 pk refl refl c2 pv refl refl refl ne4 True this de]
              obtain u3 where u3: "tl ?s4 = u3 @ t" "opens u3 (containers e)" by blast
              have "spans (pre @ u1 @ w4 @ [CHR '','']) (nesting x)"
                by (intro spans_append0 [OF pre] spans_append [of u1 "nesting x" _ 0, simplified]
                    u1(2) spans_append0 [OF w4(2)] spans_char)
                  (simp add: plain_def dquote_def)
              from spans_opens [OF this u3(2)]
              have o: "opens ((pre @ u1 @ w4 @ [CHR '','']) @ u3) (containers e)" .
              from s4 True u3(1) have "?s4 = CHR '','' # u3 @ t" by simp
              with s0 u1(1) w4(1) have "s0 = ((pre @ u1 @ w4 @ [CHR '','']) @ u3) @ t"
                by (metis append.assoc append_Cons append_Nil)
              with o show ?thesis by blast
            next
              case False
              with eq c1 pk c2 pv ne4 de show ?thesis by (auto split: if_splits)
            qed
          qed
        qed
      qed
    qed
  qed
qed

lemma parse_depth_error:
  "parseValue s d = Inl (e, t) \<Longrightarrow> is_depth_error e \<Longrightarrow> d \<le> MaxDepth
     \<Longrightarrow> d + containers e = MaxDepth"
  "parseArray s d = Inl (e, t) \<Longrightarrow> is_depth_error e \<Longrightarrow> d \<le> MaxDepth
     \<Longrightarrow> d + containers e = MaxDepth"
  "parseArray_loop s d a0 = Inl (e, t) \<Longrightarrow> is_depth_error e \<Longrightarrow> d \<le> MaxDepth
     \<Longrightarrow> d + containers e = MaxDepth"
  "parseObject s d = Inl (e, t) \<Longrightarrow> is_depth_error e \<Longrightarrow> d \<le> MaxDepth
     \<Longrightarrow> d + containers e = MaxDepth"
  "parseObject_loop s d kv0 = Inl (e, t) \<Longrightarrow> is_depth_error e \<Longrightarrow> d \<le> MaxDepth
     \<Longrightarrow> d + containers e = MaxDepth"
proof (induct s d and s d and s d a0 and s d and s d kv0
    arbitrary: e t and e t and e t and e t and e t
    rule: parseValue_parseArray_parseArray_loop_parseObject_parseObject_loop.induct)
  case (1 s depth0)
  note eq = "1.prems"(1) [unfolded parseValue.simps [of s depth0] Let_def]
  note de = "1.prems"(2)
  from eq de have ne: "\<not> length s = 0" by (auto split: if_splits)
  show ?case
  proof (cases "MaxDepth < depth0 + 1")
    case True
    with eq ne have "e = TooBigDepth" by simp
    with True "1.prems"(3) show ?thesis by simp
  next
    case dp: False
    then have le: "depth0 + 1 \<le> MaxDepth" by simp
    show ?thesis
    proof (cases "hd s = CHR ''{''")
      case True
      with eq ne dp obtain e' where pe: "parseObject (tl s) (depth0 + 1) = Inl (e', t)"
        and e: "e = CannotParseObject e'"
        by (auto split: sum.splits)
      from de e have "is_depth_error e'" by simp
      from "1.hyps"(1) [OF ne refl dp True pe this le] e show ?thesis by simp
    next
      case no: False
      show ?thesis
      proof (cases "hd s = CHR ''[''")
        case True
        with eq ne dp no obtain e' where pe: "parseArray (tl s) (depth0 + 1) = Inl (e', t)"
          and e: "e = CannotParseArray e'"
          by (auto split: sum.splits)
        from de e have "is_depth_error e'" by simp
        from "1.hyps"(2) [OF ne refl dp no True pe this le] e show ?thesis by simp
      next
        case na: False
        from eq ne dp no na have "\<not> is_depth_error e"
          by (auto split: sum.splits if_splits)
        with de show ?thesis by simp
      qed
    qed
  qed
next
  case (2 s0 depth)
  note eq = "2.prems"(1) [unfolded parseArray.simps [of s0 depth] Let_def]
  note de = "2.prems"(2)
  show ?case
  proof (cases "length (skipWS s0) = 0")
    case True
    with eq de show ?thesis by auto
  next
    case ne: False
    show ?thesis
    proof (cases "hd (skipWS s0) = CHR '']''")
      case True
      with eq ne show ?thesis by simp
    next
      case False
      with eq ne have "parseArray_loop (skipWS s0) depth [] = Inl (e, t)" by simp
      from "2.hyps" [OF refl ne False this de "2.prems"(3)] show ?thesis .
    qed
  qed
next
  case (3 s0 depth a)
  note eq = "3.prems"(1) [unfolded parseArray_loop.simps [of s0 depth a] Let_def]
  note de = "3.prems"(2)
  show ?case
  proof (cases "parseValue (skipWS s0) depth")
    case (Inl p)
    obtain e' s1 where p: "p = (e', s1)" by (cases p)
    with Inl eq have e: "e = CannotParseArrayValue e'" by simp
    with de have "is_depth_error e'" by simp
    from "3.hyps"(1) [OF Inl [unfolded p] this "3.prems"(3)] e show ?thesis by simp
  next
    case (Inr p)
    obtain x s1 where p: "p = (x, s1)" by (cases p)
    note pv = Inr [unfolded p]
    show ?thesis
    proof (cases "length (skipWS s1) = 0")
      case True
      with eq pv de show ?thesis by auto
    next
      case ne: False
      show ?thesis
      proof (cases "hd (skipWS s1) = CHR '',''")
        case True
        with eq pv ne have "parseArray_loop (tl (skipWS s1)) depth (a @ [x]) = Inl (e, t)"
          by simp
        from "3.hyps"(2) [OF pv refl refl refl ne True this de "3.prems"(3)] show ?thesis .
      next
        case False
        with eq pv ne de show ?thesis by (auto split: if_splits)
      qed
    qed
  qed
next
  case (4 s0 depth)
  note eq = "4.prems"(1) [unfolded parseObject.simps [of s0 depth] Let_def]
  note de = "4.prems"(2)
  show ?case
  proof (cases "length (skipWS s0) = 0")
    case True
    with eq de show ?thesis by auto
  next
    case ne: False
    show ?thesis
    proof (cases "hd (skipWS s0) = CHR ''}''")
      case True
      with eq ne show ?thesis by simp
    next
      case False
      with eq ne have "parseObject_loop (skipWS s0) depth [] = Inl (e, t)" by simp
      from "4.hyps" [OF refl ne False this de "4.prems"(3)] show ?thesis .
    qed
  qed
next
  case (5 s0 depth kvs0)
  note eq = "5.prems"(1) [unfolded parseObject_loop.simps [of s0 depth kvs0] Let_def]
  note de = "5.prems"(2)
  let ?s = "skipWS s0"
  show ?case
  proof (cases "length ?s = 0 \<or> hd ?s \<noteq> dquote")
    case True
    with eq de show ?thesis by auto
  next
    case c1: False
    show ?thesis
    proof (cases "parseRawKey (tl ?s)")
      case (Inl p)
      with eq c1 de show ?thesis by (cases p) auto
    next
      case (Inr p)
      obtain k s1 where p: "p = (k, s1)" by (cases p)
      note pk = Inr [unfolded p]
      let ?s2 = "skipWS s1"
      show ?thesis
      proof (cases "length ?s2 = 0 \<or> hd ?s2 \<noteq> CHR '':''")
        case True
        with eq c1 pk de show ?thesis by auto
      next
        case c2: False
        show ?thesis
        proof (cases "parseValue (skipWS (tl ?s2)) depth")
          case (Inl q)
          obtain e' s3 where q: "q = (e', s3)" by (cases q)
          note pv = Inl [unfolded q]
          with eq c1 pk c2 have e: "e = CannotParseObjectValue e'" by simp
          with de have "is_depth_error e'" by simp
          from "5.hyps"(1) [OF refl c1 pk refl refl c2 pv this "5.prems"(3)] e
          show ?thesis by simp
        next
          case (Inr q)
          obtain x s3 where q: "q = (x, s3)" by (cases q)
          note pv = Inr [unfolded q]
          let ?s4 = "skipWS s3"
          show ?thesis
          proof (cases "length ?s4 = 0")
            case True
            with eq c1 pk c2 pv de show ?thesis by auto
          next
            case ne4: False
            show ?thesis
            proof (cases "hd ?s4 = CHR '',''")
              case True
              with eq c1 pk c2 pv ne4
              have "parseObject_loop (tl ?s4) depth (kvs0 @ [KV k x]) = Inl (e, t)" by simp
              from "5.hyps"(2) [OF refl c1 pk refl refl c2 pv refl refl refl ne4 True this de
                  "5.prems"(3)]
              show ?thesis .
            next
              case False
              with eq c1 pk c2 pv ne4 de show ?thesis by (auto split: if_splits)
            qed
          qed
        qed
      qed
    qed
  qed
qed

lemma skipWS_visible: "byte c > 0x20 \<Longrightarrow> skipWS (c # s) = c # s"
  by (simp add: skipWS_def)

lemma parseValue_too_deep: "s \<noteq> [] \<Longrightarrow> MaxDepth \<le> d \<Longrightarrow> parseValue s d = Inl (TooBigDepth, s)"
  by (subst parseValue.simps) (simp add: Let_def)

lemma parseValue_array:
  assumes "d + 1 \<le> MaxDepth"
  shows "parseValue (CHR ''['' # s) d =
           (case parseArray s (d + 1) of
              Inl (err, tail) \<Rightarrow> Inl (CannotParseArray err, tail)
            | Inr (v, tail) \<Rightarrow> Inr (v, tail))"
  using assms by (subst parseValue.simps) (simp add: Let_def)

lemma parseArray_empty: "parseArray (CHR '']'' # s) d = Inr (VArray [], s)"
  by (subst parseArray.simps) (simp add: Let_def skipWS_def byte_def)

lemma parseArray_item:
  assumes "byte c > 0x20" "c \<noteq> CHR '']''"
  shows "parseArray (c # s) d = parseArray_loop (c # s) d []"
  by (subst parseArray.simps) (simp add: Let_def skipWS_visible assms)

lemma parseArray_loop_last:
  assumes "byte c > 0x20" "parseValue (c # s) d = Inr (x, CHR '']'' # rest)"
  shows "parseArray_loop (c # s) d a = Inr (VArray (a @ [x]), rest)"
proof -
  have sk: "skipWS (c # s) = c # s" by (rule skipWS_visible [OF assms(1)])
  have sk2: "skipWS (CHR '']'' # rest) = CHR '']'' # rest" by (simp add: skipWS_def byte_def)
  show ?thesis by (subst parseArray_loop.simps) (simp add: Let_def sk sk2 assms(2))
qed

lemma parseArray_loop_error:
  assumes "byte c > 0x20" "parseValue (c # s) d = Inl (e, t)"
  shows "parseArray_loop (c # s) d a = Inl (CannotParseArrayValue e, t)"
  by (subst parseArray_loop.simps) (simp add: Let_def skipWS_visible assms)

lemma bracket_visible: "byte CHR ''['' > 0x20"
  by (simp add: byte_def)

lemma parse_nested:
  "Suc n + d \<le> MaxDepth \<Longrightarrow>
     parseValue (replicate (Suc n) CHR ''['' @ replicate (Suc n) CHR '']'' @ rest) d
       = Inr (nested n, rest)"
proof (induction n arbitrary: d rest)
  case 0
  then have "d + 1 \<le> MaxDepth" by simp
  then show ?case by (simp add: parseValue_array parseArray_empty)
next
  case (Suc n)
  from Suc.prems have d: "d + 1 \<le> MaxDepth" and d': "Suc n + (d + 1) \<le> MaxDepth" by simp_all
  let ?inner = "replicate n CHR ''['' @ replicate (Suc n) CHR '']'' @ CHR '']'' # rest"
  have r: "replicate (Suc (Suc n)) CHR '']'' @ rest = replicate (Suc n) CHR '']'' @ CHR '']'' # rest"
    by (simp add: replicate_append_same)
  have pv: "parseValue (CHR ''['' # ?inner) (d + 1) = Inr (nested n, CHR '']'' # rest)"
    using Suc.IH [OF d', of "CHR '']'' # rest"] by simp
  have "parseArray (CHR ''['' # ?inner) (d + 1) = Inr (VArray [nested n], rest)"
    using parseArray_loop_last [OF bracket_visible pv, of "[]"]
    by (simp add: parseArray_item bracket_visible)
  then have "parseValue (CHR ''['' # CHR ''['' # ?inner) d = Inr (nested (Suc n), rest)"
    by (simp add: parseValue_array [OF d])
  then show ?case unfolding r by simp
qed

lemma parse_too_deep:
  "MaxDepth \<le> d + n \<Longrightarrow> byte c > 0x20 \<Longrightarrow> c \<noteq> CHR '']'' \<Longrightarrow>
     \<exists>e t. parseValue (replicate n CHR ''['' @ c # rest) d = Inl (e, t) \<and> is_depth_error e"
proof (induction n arbitrary: d)
  case 0
  then show ?case by (simp add: parseValue_too_deep)
next
  case (Suc n)
  show ?case
  proof (cases "MaxDepth \<le> d")
    case True
    then show ?thesis by (simp add: parseValue_too_deep)
  next
    case False
    then have d: "d + 1 \<le> MaxDepth" by simp
    from Suc.prems(1) have "MaxDepth \<le> (d + 1) + n" by simp
    from Suc.IH [OF this Suc.prems(2,3)] obtain e t
      where pv: "parseValue (replicate n CHR ''['' @ c # rest) (d + 1) = Inl (e, t)"
        and de: "is_depth_error e" by blast
    obtain c' s' where inner: "replicate n CHR ''['' @ c # rest = c' # s'"
      and c': "byte c' > 0x20" "c' \<noteq> CHR '']''"
      using Suc.prems(2,3) bracket_visible by (cases n) auto
    have "parseArray (c' # s') (d + 1) = Inl (CannotParseArrayValue e, t)"
      using pv [unfolded inner] c'
      by (simp add: parseArray_item parseArray_loop_error)
    then have "parseValue (CHR ''['' # c' # s') d = Inl (CannotParseArray (CannotParseArrayValue e), t)"
      by (simp add: parseValue_array [OF d])
    with de inner show ?thesis by simp
  qed
qed

lemma Parser_Parse_nested:
  assumes "Suc n \<le> MaxDepth"
  shows "Parser_Parse (replicate (Suc n) CHR ''['' @ replicate (Suc n) CHR '']'') = Inr (nested n)"
proof -
  from assms have "Suc n + 0 \<le> MaxDepth" by simp
  from parse_nested [OF this, of "[]"]
  have "parseValue (CHR ''['' # replicate n CHR ''['' @ replicate (Suc n) CHR '']'') 0
          = Inr (nested n, [])"
    by simp
  then show ?thesis
    by (simp add: Parser_Parse_def skipWS_visible bracket_visible skipWS_def)
qed

lemma Parser_Parse_too_deep:
  assumes "MaxDepth \<le> n" "byte c > 0x20" "c \<noteq> CHR '']''"
  shows "\<exists>e. Parser_Parse (replicate n CHR ''['' @ c # rest) = Inl e \<and> is_depth_error e"
proof -
  from assms(1) have "MaxDepth \<le> 0 + n" by simp
  from parse_too_deep [OF this assms(2,3)] obtain e t
    where pv: "parseValue (replicate n CHR ''['' @ c # rest) 0 = Inl (e, t)"
      and de: "is_depth_error e" by blast
  obtain c' s' where inner: "replicate n CHR ''['' @ c # rest = c' # s'" and c': "byte c' > 0x20"
    using assms(2) bracket_visible by (cases n) auto
  from pv [unfolded inner] c' de show ?thesis
    unfolding inner by (simp add: Parser_Parse_def skipWS_visible)
qed

lemma array_depth_error_depth: "is_depth_error (array_depth_error n)"
  by (induction n) simp_all

lemma Parser_Parse_nesting:
  assumes "Parser_Parse s = Inr v"
  shows "nesting_depth s = nesting v" and "nesting v \<le> MaxDepth"
proof -
  from assms obtain t where pv: "parseValue (skipWS s) 0 = Inr (v, t)" and t: "skipWS t = []"
    by (auto simp: Parser_Parse_def Let_def split: sum.splits if_splits)
  from parse_nesting_ok(1) [OF pv] show "nesting v \<le> MaxDepth" by simp
  obtain w where w: "s = w @ skipWS s" "spans w 0" by (rule skipWS_spans)
  from parse_spans(1) [OF pv] obtain u where u: "skipWS s = u @ t" "spans u (nesting v)" by blast
  from skipWS_Nil_ws [OF t] have "spans t 0" by (rule spans_ws)
  from spans_append0 [OF w(2) spans_append0' [OF u(2) this]]
  have "spans (w @ u @ t) (nesting v)" .
  moreover from w(1) u(1) have "s = w @ u @ t" by simp
  ultimately have "spans s (nesting v)" by simp
  then show "nesting_depth s = nesting v" by (simp add: spans_def nesting_depth_def)
qed

lemma Parser_Parse_depth_error_nesting:
  assumes "Parser_Parse s = Inl e" "is_depth_error e"
  shows "MaxDepth \<le> nesting_depth s"
proof (cases "parseValue (skipWS s) 0")
  case (Inl p)
  obtain e' t where p: "p = (e', t)" by (cases p)
  note pv = Inl [unfolded p]
  from pv assms(1) have e: "e = CannotParseJSON e' t" by (simp add: Parser_Parse_def)
  with assms(2) have de: "is_depth_error e'" by simp
  from parse_depth_error(1) [OF pv de] have c: "containers e' = MaxDepth" by simp
  obtain w where w: "s = w @ skipWS s" "spans w 0" by (rule skipWS_spans)
  from parse_error_opens(1) [OF pv de] obtain u where u: "skipWS s = u @ t" "opens u (containers e')"
    by blast
  from spans_opens [OF w(2) u(2)] c have "opens (w @ u) MaxDepth" by simp
  then obtain mx' where sc: "scan (Outside, 0, 0) (w @ u) = (Outside, MaxDepth, mx')"
    and mx': "MaxDepth \<le> mx'"
    unfolding opens_def by force
  from w(1) u(1) have seq: "s = (w @ u) @ t" by simp
  have "scan (Outside, 0, 0) s = scan (Outside, MaxDepth, mx') t"
    unfolding seq scan_append [of _ "w @ u" t] sc by (rule refl)
  then have "nesting_depth s = snd (snd (scan (Outside, MaxDepth, mx') t))"
    by (simp add: nesting_depth_def)
  moreover have "mx' \<le> snd (snd (scan (Outside, MaxDepth, mx') t))"
    using scan_mono [of "(Outside, MaxDepth, mx')" t] by simp
  ultimately show ?thesis using mx' by simp
next
  case (Inr p)
  with assms show ?thesis
    by (cases p) (auto simp: Parser_Parse_def Let_def split: if_splits)
qed

lemma scan_open:
  "cur \<le> mx \<Longrightarrow> scan (Outside, cur, mx) (replicate n CHR ''['') = (Outside, cur + n, max mx (cur + n))"
  by (induction n arbitrary: cur mx) (simp_all add: dquote_def max_def)

lemma scan_close: "scan (Outside, cur + n, mx) (replicate n CHR '']'') = (Outside, cur, mx)"
  by (induction n arbitrary: cur) (simp_all add: dquote_def)

lemma nesting_depth_brackets:
  assumes "\<forall>c\<in>set u. plain c"
  shows "nesting_depth (replicate n CHR ''['' @ u @ replicate n CHR '']'') = n"
proof -
  have "scan (Outside, 0, 0) (replicate n CHR ''['') = (Outside, n, n)"
    using scan_open [of 0 0 n] by simp
  moreover have "scan (Outside, n, n) u = (Outside, n, n)" by (rule scan_plain [OF assms])
  moreover have "scan (Outside, n, n) (replicate n CHR '']'') = (Outside, 0, n)"
    using scan_close [of 0 n n] by simp
  ultimately show ?thesis by (simp add: nesting_depth_def scan_append)
qed

lemma parse_too_deep_exact:
  "d + n = MaxDepth \<Longrightarrow> byte c > 0x20 \<Longrightarrow> c \<noteq> CHR '']'' \<Longrightarrow>
     parseValue (replicate n CHR ''['' @ c # rest) d = Inl (array_depth_error n, c # rest)"
proof (induction n arbitrary: d)
  case 0
  then show ?case by (simp add: parseValue_too_deep)
next
  case (Suc n)
  from Suc.prems(1) have d: "d + 1 \<le> MaxDepth" and d': "(d + 1) + n = MaxDepth" by simp_all
  note pv = Suc.IH [OF d' Suc.prems(2,3)]
  obtain c' s' where inner: "replicate n CHR ''['' @ c # rest = c' # s'"
    and c': "byte c' > 0x20" "c' \<noteq> CHR '']''"
    using Suc.prems(2,3) bracket_visible by (cases n) auto
  have "parseArray (c' # s') (d + 1) = Inl (CannotParseArrayValue (array_depth_error n), c # rest)"
    using pv [unfolded inner] c'
    by (simp add: parseArray_item parseArray_loop_error)
  then have "parseValue (CHR ''['' # c' # s') d
      = Inl (CannotParseArray (CannotParseArrayValue (array_depth_error n)), c # rest)"
    by (simp add: parseValue_array [OF d])
  with inner show ?case by simp
qed

lemma Parser_Parse_too_deep_exact:
  assumes "n = MaxDepth" "byte c > 0x20" "c \<noteq> CHR '']''"
  shows "Parser_Parse (replicate n CHR ''['' @ c # rest)
           = Inl (CannotParseJSON (array_depth_error n) (c # rest))"
proof -
  from assms(1) have "0 + n = MaxDepth" by simp
  note pv = parse_too_deep_exact [OF this assms(2,3), of rest]
  obtain c' s' where inner: "replicate n CHR ''['' @ c # rest = c' # s'" and c': "byte c' > 0x20"
    using assms(2) bracket_visible by (cases n) auto
  from pv [unfolded inner] c' show ?thesis
    unfolding inner by (simp add: Parser_Parse_def skipWS_visible)
qed

text \<open>
  C4 (as stated): an input whose nesting depth exceeds 300 is refused, and an input of
  nesting depth at most 300 produces no depth error. \<open>parseValue\<close> increments the depth
  on entry to every value, a scalar included, so a scalar inside 300 arrays is entered at
  depth 300 and refused: the text of 300 opening brackets, the digit 1 and 300 closing
  brackets has nesting depth 300 and produces the depth error.
\<close>

theorem Parse_depth_error_at_nesting_300:
  "nesting_depth (replicate 300 CHR ''['' @ ''1'' @ replicate 300 CHR '']'') = 300 \<and>
   Parser_Parse (replicate 300 CHR ''['' @ ''1'' @ replicate 300 CHR '']'')
     = Inl (CannotParseJSON (array_depth_error 300) (''1'' @ replicate 300 CHR '']'')) \<and>
   is_depth_error (CannotParseJSON (array_depth_error 300) (''1'' @ replicate 300 CHR '']''))"
proof -
  have a: "nesting_depth (replicate 300 CHR ''['' @ ''1'' @ replicate 300 CHR '']'') = 300"
    by (rule nesting_depth_brackets) (simp add: plain_def dquote_def)
  have b: "Parser_Parse (replicate 300 CHR ''['' @ ''1'' @ replicate 300 CHR '']'')
     = Inl (CannotParseJSON (array_depth_error 300) (''1'' @ replicate 300 CHR '']''))"
    using Parser_Parse_too_deep_exact [of 300 "CHR ''1''" "replicate 300 CHR '']''"]
    by (simp add: MaxDepth_def byte_def)
  have c: "is_depth_error (CannotParseJSON (array_depth_error 300) (''1'' @ replicate 300 CHR '']''))"
    by (simp add: array_depth_error_depth)
  from a b c show ?thesis by (intro conjI)
qed

text \<open>
  C4 (amended): \<open>parseValue\<close> refuses a non-empty input with the depth error exactly when
  the depth it is entered with has reached \<open>MaxDepth = 300\<close>, that is when the
  incremented depth exceeds the limit. An input whose nesting depth exceeds 300 is refused
  with an error, and an input whose nesting depth is below 300 produces no depth error;
  the nesting depth of an input that is parsed is that of the value returned. At nesting
  depth exactly 300 both outcomes occur: nested empty arrays are parsed up to 300 of
  them, and 300 or more opening brackets followed by a byte above 0x20 other than a
  closing bracket (the first byte of a further value) produce the depth error.
\<close>

theorem Parse_depth_limit:
  "MaxDepth = 300 \<and>
   (s \<noteq> [] \<longrightarrow> (parseValue s d = Inl (TooBigDepth, s) \<longleftrightarrow> MaxDepth \<le> d)) \<and>
   (MaxDepth < nesting_depth s \<longrightarrow> (\<exists>e. Parser_Parse s = Inl e)) \<and>
   (nesting_depth s < MaxDepth \<longrightarrow> \<not> (\<exists>e. Parser_Parse s = Inl e \<and> is_depth_error e)) \<and>
   (Parser_Parse s = Inr v \<longrightarrow> nesting_depth s = nesting v) \<and>
   (Suc n \<le> MaxDepth \<longrightarrow>
      nesting_depth (replicate (Suc n) CHR ''['' @ replicate (Suc n) CHR '']'') = Suc n \<and>
      Parser_Parse (replicate (Suc n) CHR ''['' @ replicate (Suc n) CHR '']'') = Inr (nested n)) \<and>
   (MaxDepth \<le> n \<and> byte c > 0x20 \<and> c \<noteq> CHR '']'' \<longrightarrow>
      (\<exists>e. Parser_Parse (replicate n CHR ''['' @ c # rest) = Inl e \<and> is_depth_error e))"
proof (intro conjI impI)
  show "MaxDepth = 300" by (simp add: MaxDepth_def)
next
  assume ne: "s \<noteq> []"
  show "parseValue s d = Inl (TooBigDepth, s) \<longleftrightarrow> MaxDepth \<le> d"
  proof
    assume e: "parseValue s d = Inl (TooBigDepth, s)"
    show "MaxDepth \<le> d"
    proof (cases "d \<le> MaxDepth")
      case True
      from parse_depth_error(1) [OF e _ True] show ?thesis by simp
    next
      case False
      then show ?thesis by simp
    qed
  next
    assume "MaxDepth \<le> d"
    with ne show "parseValue s d = Inl (TooBigDepth, s)" by (rule parseValue_too_deep)
  qed
next
  assume deep: "MaxDepth < nesting_depth s"
  show "\<exists>e. Parser_Parse s = Inl e"
  proof (cases "Parser_Parse s")
    case (Inl e)
    then show ?thesis by blast
  next
    case (Inr v)
    from Parser_Parse_nesting [OF Inr] deep show ?thesis by simp
  qed
next
  assume low: "nesting_depth s < MaxDepth"
  show "\<not> (\<exists>e. Parser_Parse s = Inl e \<and> is_depth_error e)"
  proof
    assume "\<exists>e. Parser_Parse s = Inl e \<and> is_depth_error e"
    then obtain e where "Parser_Parse s = Inl e" "is_depth_error e" by blast
    from Parser_Parse_depth_error_nesting [OF this] low show False by simp
  qed
next
  assume "Parser_Parse s = Inr v"
  then show "nesting_depth s = nesting v" by (rule Parser_Parse_nesting(1))
next
  assume "Suc n \<le> MaxDepth"
  then show "Parser_Parse (replicate (Suc n) CHR ''['' @ replicate (Suc n) CHR '']'') = Inr (nested n)"
    by (rule Parser_Parse_nested)
next
  show "nesting_depth (replicate (Suc n) CHR ''['' @ replicate (Suc n) CHR '']'') = Suc n"
    using nesting_depth_brackets [of "[]" "Suc n"] by simp
next
  assume "MaxDepth \<le> n \<and> byte c > 0x20 \<and> c \<noteq> CHR '']''"
  then show "\<exists>e. Parser_Parse (replicate n CHR ''['' @ c # rest) = Inl e \<and> is_depth_error e"
    by (auto intro: Parser_Parse_too_deep)
qed

theorem Parse_depth_limit_witness:
  "nesting_depth ''[[1]]'' = 2 \<and>
   Parser_Parse ''[[1]]'' = Inr (VArray [VArray [VNumber ''1'']]) \<and>
   \<not> (\<exists>e. Parser_Parse ''[[1]]'' = Inl e \<and> is_depth_error e) \<and>
   nesting_depth (replicate 300 CHR ''['' @ replicate 300 CHR '']'') = 300 \<and>
   Parser_Parse (replicate 300 CHR ''['' @ replicate 300 CHR '']'') = Inr (nested 299) \<and>
   nesting_depth (replicate 301 CHR ''['' @ replicate 301 CHR '']'') = 301 \<and>
   (\<exists>e. Parser_Parse (replicate 301 CHR ''['' @ replicate 301 CHR '']'') = Inl e)"
proof -
  have m: "MaxDepth = 300" by (simp add: MaxDepth_def)
  have p: "Parser_Parse ''[[1]]'' = Inr (VArray [VArray [VNumber ''1'']])"
    by (simp add: parse_simps)
  have d: "nesting_depth ''[[1]]'' = 2"
    by (simp add: nesting_depth_def dquote_def)
  from Parse_depth_limit [of "''[[1]]''"] d m
  have nd: "\<not> (\<exists>e. Parser_Parse ''[[1]]'' = Inl e \<and> is_depth_error e)"
    by simp
  have s299: "Suc 299 = 300" by simp
  from Parse_depth_limit [where n = 299] m
  have b: "nesting_depth (replicate (Suc 299) CHR ''['' @ replicate (Suc 299) CHR '']'') = Suc 299"
    "Parser_Parse (replicate (Suc 299) CHR ''['' @ replicate (Suc 299) CHR '']'') = Inr (nested 299)"
    by simp_all
  have d301: "nesting_depth (replicate 301 CHR ''['' @ replicate 301 CHR '']'') = 301"
    using nesting_depth_brackets [of "[]" 301] by simp
  from Parse_depth_limit [of "replicate 301 CHR ''['' @ replicate 301 CHR '']''"] d301 m
  have e: "\<exists>e. Parser_Parse (replicate 301 CHR ''['' @ replicate 301 CHR '']'') = Inl e"
    by simp
  from d p nd b [unfolded s299] d301 e show ?thesis by (intro conjI)
qed

end
